theory Spec2Isabelle
  imports Main "HOL-Library.Multiset"
begin

section \<open>Minesweeper core: the data model of components.py\<close>

text \<open>
  The only exception the board logic can raise is Python's IndexError, from a list
  subscript out of range (\<open>pool[i]\<close> in \<open>place_mines\<close>, \<open>self.cells[...]\<close> everywhere).
  A call that raises is modelled as \<open>Inl IndexError\<close>; a call that returns normally
  as \<open>Inr\<close> of the board it leaves behind.
\<close>

datatype error = IndexError

record CellState =
  is_mine :: bool
  is_revealed :: bool
  is_flagged :: bool
  adjacent :: int

record Cell =
  col :: int
  row :: int
  state :: CellState

record Board =
  cols :: int
  rows :: int
  num_mines :: int
  cells :: "Cell list"
  mines_placed :: bool
  revealed_count :: int
  game_over :: bool
  win :: bool

subsection \<open>Python list primitives\<close>

text \<open>\<open>range(n)\<close> for an integer \<open>n\<close>: empty when \<open>n \<le> 0\<close>.\<close>

definition py_range :: "int \<Rightarrow> int list" where
  "py_range n = map int [0..<nat n]"

text \<open>
  The position a Python subscript \<open>i\<close> denotes in a list of length \<open>n\<close>:
  a negative subscript counts from the end, anything outside \<open>[-n, n)\<close> raises.
\<close>

definition py_pos :: "nat \<Rightarrow> int \<Rightarrow> error + nat" where
  "py_pos n i =
     (if 0 \<le> i \<and> i < int n then Inr (nat i)
      else if i < 0 \<and> - int n \<le> i then Inr (nat (int n + i))
      else Inl IndexError)"

definition py_get :: "'a list \<Rightarrow> int \<Rightarrow> error + 'a" where
  "py_get xs i = (case py_pos (length xs) i of Inl e \<Rightarrow> Inl e | Inr k \<Rightarrow> Inr (xs ! k))"

subsection \<open>Construction\<close>

text \<open>\<open>CellState()\<close> and \<open>Cell(col, row)\<close> with the constructors' defaults.\<close>

definition CellState_init :: CellState where
  "CellState_init = \<lparr>is_mine = False, is_revealed = False, is_flagged = False, adjacent = 0\<rparr>"

definition Cell_init :: "int \<Rightarrow> int \<Rightarrow> Cell" where
  "Cell_init c r = \<lparr>col = c, row = r, state = CellState_init\<rparr>"

text \<open>
  \<open>Board.__init__\<close>: no check of the arguments, no raise. The result type is a sum
  only so that "construction fails" can be stated and compared with what the code does.
\<close>

definition Board_init :: "int \<Rightarrow> int \<Rightarrow> int \<Rightarrow> error + Board" where
  "Board_init cs rs mines =
     Inr \<lparr>cols = cs, rows = rs, num_mines = mines,
          cells = concat (map (\<lambda>r. map (\<lambda>c. Cell_init c r) (py_range cs)) (py_range rs)),
          mines_placed = False, revealed_count = 0, game_over = False, win = False\<rparr>"

subsection \<open>Coordinates\<close>

definition index :: "Board \<Rightarrow> int \<Rightarrow> int \<Rightarrow> int" where
  "index b c r = r * cols b + c"

definition is_inbounds :: "Board \<Rightarrow> int \<Rightarrow> int \<Rightarrow> bool" where
  "is_inbounds b c r \<longleftrightarrow> 0 \<le> c \<and> c < cols b \<and> 0 \<le> r \<and> r < rows b"

definition deltas :: "(int \<times> int) list" where
  "deltas = [(-1, -1), (0, -1), (1, -1),
             (-1,  0),          (1,  0),
             (-1,  1), (0,  1), (1,  1)]"

definition neighbors :: "Board \<Rightarrow> int \<Rightarrow> int \<Rightarrow> (int \<times> int) list" where
  "neighbors b c r =
     filter (\<lambda>(nc, nr). is_inbounds b nc nr) (map (\<lambda>(dx, dy). (c + dx, r + dy)) deltas)"

text \<open>
  \<open>self.cells[self.index(c, r)]\<close>: the list position of the cell object the subscript
  selects, or the IndexError it raises.
\<close>

definition cell_pos :: "Board \<Rightarrow> int \<Rightarrow> int \<Rightarrow> error + nat" where
  "cell_pos b c r = py_pos (length (cells b)) (index b c r)"

definition get_state :: "Board \<Rightarrow> int \<Rightarrow> int \<Rightarrow> error + CellState" where
  "get_state b c r =
     (case cell_pos b c r of Inl e \<Rightarrow> Inl e | Inr k \<Rightarrow> Inr (state (cells b ! k)))"

text \<open>
  The cell states are mutable objects owned by the list; an assignment to a field of
  \<open>self.cells[k].state\<close> is a functional update of the list element at position \<open>k\<close>.
\<close>

definition upd_state :: "(CellState \<Rightarrow> CellState) \<Rightarrow> nat \<Rightarrow> Board \<Rightarrow> Board" where
  "upd_state f k b = b\<lparr>cells := (cells b)[k := (cells b ! k)\<lparr>state := f (state (cells b ! k))\<rparr>]\<rparr>"

subsection \<open>Mine placement\<close>

text \<open>\<open>[(c, r) for r in range(self.rows) for c in range(self.cols)]\<close>, row-major.\<close>

definition all_positions :: "Board \<Rightarrow> (int \<times> int) list" where
  "all_positions b = concat (map (\<lambda>r. map (\<lambda>c. (c, r)) (py_range (cols b))) (py_range (rows b)))"

definition forbidden :: "Board \<Rightarrow> int \<Rightarrow> int \<Rightarrow> (int \<times> int) set" where
  "forbidden b safe_col safe_row = {(safe_col, safe_row)} \<union> set (neighbors b safe_col safe_row)"

definition pool :: "Board \<Rightarrow> int \<Rightarrow> int \<Rightarrow> (int \<times> int) list" where
  "pool b safe_col safe_row =
     filter (\<lambda>p. p \<notin> forbidden b safe_col safe_row) (all_positions b)"

text \<open>
  \<open>for i in range(self.num_mines): c, r = pool[i]; self.cells[self.index(c, r)].state.is_mine = True\<close>
  over the already shuffled pool.
\<close>

fun mark_mines :: "Board \<Rightarrow> (int \<times> int) list \<Rightarrow> int list \<Rightarrow> error + Board" where
  "mark_mines b shuffled [] = Inr b"
| "mark_mines b shuffled (i # rest) =
     (case py_get shuffled i of
        Inl e \<Rightarrow> Inl e
      | Inr (c, r) \<Rightarrow>
          (case cell_pos b c r of
             Inl e \<Rightarrow> Inl e
           | Inr k \<Rightarrow> mark_mines (upd_state (\<lambda>s. s\<lparr>is_mine := True\<rparr>) k b) shuffled rest))"

text \<open>The inner counting loop over \<open>self.neighbors(c, r)\<close>.\<close>

fun count_mines :: "Board \<Rightarrow> (int \<times> int) list \<Rightarrow> int \<Rightarrow> error + int" where
  "count_mines b [] cnt = Inr cnt"
| "count_mines b ((nc, nr) # rest) cnt =
     (case get_state b nc nr of
        Inl e \<Rightarrow> Inl e
      | Inr s \<Rightarrow> count_mines b rest (if is_mine s then cnt + 1 else cnt))"

text \<open>
  The adjacency pass, \<open>for r in range(self.rows): for c in range(self.cols)\<close>; the
  positions are passed in that (row-major) order. A mine cell is skipped.
\<close>

fun compute_adjacent :: "Board \<Rightarrow> (int \<times> int) list \<Rightarrow> error + Board" where
  "compute_adjacent b [] = Inr b"
| "compute_adjacent b ((c, r) # rest) =
     (case cell_pos b c r of
        Inl e \<Rightarrow> Inl e
      | Inr k \<Rightarrow>
          if is_mine (state (cells b ! k)) then compute_adjacent b rest
          else (case count_mines b (neighbors b c r) 0 of
                  Inl e \<Rightarrow> Inl e
                | Inr cnt \<Rightarrow>
                    compute_adjacent (upd_state (\<lambda>s. s\<lparr>adjacent := cnt\<rparr>) k b) rest))"

text \<open>
  \<open>random.shuffle(pool)\<close> is the parameter \<open>shuffle\<close>: any function that returns a
  permutation of its argument (\<open>is_shuffle\<close>).
\<close>

definition is_shuffle :: "((int \<times> int) list \<Rightarrow> (int \<times> int) list) \<Rightarrow> bool" where
  "is_shuffle shuffle \<longleftrightarrow> (\<forall>xs. mset (shuffle xs) = mset xs)"

definition place_mines ::
  "((int \<times> int) list \<Rightarrow> (int \<times> int) list) \<Rightarrow> Board \<Rightarrow> int \<Rightarrow> int \<Rightarrow> error + Board" where
  "place_mines shuffle b safe_col safe_row =
     (case mark_mines b (shuffle (pool b safe_col safe_row)) (py_range (num_mines b)) of
        Inl e \<Rightarrow> Inl e
      | Inr b1 \<Rightarrow>
          (case compute_adjacent b1 (all_positions b1) of
             Inl e \<Rightarrow> Inl e
           | Inr b2 \<Rightarrow> Inr (b2\<lparr>mines_placed := True\<rparr>)))"

subsection \<open>Loss and win\<close>

definition reveal_all_mines :: "Board \<Rightarrow> Board" where
  "reveal_all_mines b =
     b\<lparr>cells := map (\<lambda>cell. if is_mine (state cell)
                             then cell\<lparr>state := (state cell)\<lparr>is_revealed := True\<rparr>\<rparr>
                             else cell) (cells b)\<rparr>"

definition check_win :: "Board \<Rightarrow> Board" where
  "check_win b =
     (let total_cells = cols b * rows b in
      if revealed_count b = total_cells - num_mines b \<and> \<not> game_over b
      then b\<lparr>win := True,
              cells := map (\<lambda>cell. if \<not> is_revealed (state cell) \<and> \<not> is_mine (state cell)
                                    then cell\<lparr>state := (state cell)\<lparr>is_revealed := True\<rparr>\<rparr>
                                    else cell) (cells b)\<rparr>
      else b)"

subsection \<open>Reveal\<close>

text \<open>
  The inner loop of the flood fill: every neighbour that is not revealed, not flagged
  and not a mine is appended to \<open>to_visit\<close>.
\<close>

fun push_neighbors :: "Board \<Rightarrow> (int \<times> int) list \<Rightarrow> (int \<times> int) list \<Rightarrow> error + (int \<times> int) list" where
  "push_neighbors b [] to_visit = Inr to_visit"
| "push_neighbors b ((nc, nr) # rest) to_visit =
     (case get_state b nc nr of
        Inl e \<Rightarrow> Inl e
      | Inr neigh \<Rightarrow>
          push_neighbors b rest
            (if \<not> is_revealed neigh \<and> \<not> is_flagged neigh \<and> \<not> is_mine neigh
             then to_visit @ [(nc, nr)] else to_visit))"

definition unrevealed :: "Board \<Rightarrow> nat" where
  "unrevealed b = length (filter (\<lambda>cell. \<not> is_revealed (state cell)) (cells b))"

text \<open>
  \<open>while to_visit: c, r = to_visit.pop() ...\<close>. The work list is the Python list
  itself: \<open>pop()\<close> takes its last element, \<open>append\<close> adds at the end.
\<close>

function flood :: "Board \<Rightarrow> (int \<times> int) list \<Rightarrow> error + Board" where
  "flood b to_visit =
     (if to_visit = [] then Inr b
      else
        (case cell_pos b (fst (last to_visit)) (snd (last to_visit)) of
           Inl e \<Rightarrow> Inl e
         | Inr k \<Rightarrow>
             if is_revealed (state (cells b ! k)) \<or> is_flagged (state (cells b ! k))
             then flood b (butlast to_visit)
             else
               if adjacent (state (cells b ! k)) = 0
               then
                 (case push_neighbors
                         (upd_state (\<lambda>s. s\<lparr>is_revealed := True\<rparr>) k b
                            \<lparr>revealed_count := revealed_count b + 1\<rparr>)
                         (neighbors b (fst (last to_visit)) (snd (last to_visit)))
                         (butlast to_visit) of
                    Inl e \<Rightarrow> Inl e
                  | Inr to_visit' \<Rightarrow>
                      flood (upd_state (\<lambda>s. s\<lparr>is_revealed := True\<rparr>) k b
                               \<lparr>revealed_count := revealed_count b + 1\<rparr>) to_visit')
               else flood (upd_state (\<lambda>s. s\<lparr>is_revealed := True\<rparr>) k b
                             \<lparr>revealed_count := revealed_count b + 1\<rparr>) (butlast to_visit)))"
  by pat_completeness auto

termination
proof -
  have pos: "k < n" if "py_pos n i = Inr k" for n i k
    using that by (auto simp: py_pos_def split: if_splits)
  have less: "length (filter (\<lambda>cell. \<not> is_revealed (state cell))
                   (xs[k := (xs ! k)\<lparr>state := (state (xs ! k))\<lparr>is_revealed := True\<rparr>\<rparr>]))
         < length (filter (\<lambda>cell. \<not> is_revealed (state cell)) xs)"
    if "k < length xs" and "\<not> is_revealed (state (xs ! k))" for xs :: "Cell list" and k
    using that
  proof (induction xs arbitrary: k)
    case Nil
    then show ?case by simp
  next
    case (Cons x xs)
    then show ?case by (cases k) auto
  qed
  show ?thesis
  proof (relation "measures [\<lambda>(b, tv). unrevealed b, \<lambda>(b, tv). length tv]", goal_cases)
    case 1
    then show ?case by simp
  next
    case (2 b to_visit k)
    then show ?case by simp
  next
    case (3 b to_visit k tv')
    then show ?case
      by (simp add: unrevealed_def upd_state_def cell_pos_def less pos)
  next
    case (4 b to_visit k)
    then show ?case
      by (simp add: unrevealed_def upd_state_def cell_pos_def less pos)
  qed
qed

text \<open>
  \<open>Board.reveal\<close>. The local \<open>cell\<close> is the state object at position \<open>k\<close>; placement
  mutates that same object, so the flag and mine tests after it read position \<open>k\<close> of
  the board as placement left it.
\<close>

definition reveal ::
  "((int \<times> int) list \<Rightarrow> (int \<times> int) list) \<Rightarrow> Board \<Rightarrow> int \<Rightarrow> int \<Rightarrow> error + Board" where
  "reveal shuffle b c r =
     (if \<not> is_inbounds b c r \<or> game_over b then Inr b
      else
        (case cell_pos b c r of
           Inl e \<Rightarrow> Inl e
         | Inr k \<Rightarrow>
             if is_revealed (state (cells b ! k)) then Inr b
             else
               (case (if \<not> mines_placed b then place_mines shuffle b c r else Inr b) of
                  Inl e \<Rightarrow> Inl e
                | Inr b1 \<Rightarrow>
                    if is_flagged (state (cells b1 ! k)) then Inr b1
                    else if is_mine (state (cells b1 ! k))
                    then Inr (reveal_all_mines
                                (upd_state (\<lambda>s. s\<lparr>is_revealed := True\<rparr>) k b1
                                   \<lparr>game_over := True\<rparr>))
                    else
                      (case flood b1 [(c, r)] of
                         Inl e \<Rightarrow> Inl e
                       | Inr b2 \<Rightarrow> Inr (check_win b2)))))"

subsection \<open>Flags\<close>

definition toggle_flag :: "Board \<Rightarrow> int \<Rightarrow> int \<Rightarrow> error + Board" where
  "toggle_flag b c r =
     (if \<not> is_inbounds b c r then Inr b
      else
        (case cell_pos b c r of
           Inl e \<Rightarrow> Inl e
         | Inr k \<Rightarrow>
             if is_revealed (state (cells b ! k)) then Inr b
             else Inr (upd_state (\<lambda>s. s\<lparr>is_flagged := \<not> is_flagged s\<rparr>) k b)))"

text \<open>
  \<open>flagged_count\<close> has the body \<open>pass\<close> under a TODO comment: it returns Python's
  \<open>None\<close> for every board.
\<close>

definition flagged_count :: "Board \<Rightarrow> int option" where
  "flagged_count b = None"

text \<open>The number the comment of \<open>flagged_count\<close> asks for.\<close>

definition num_flagged :: "Board \<Rightarrow> int" where
  "num_flagged b = int (length (filter (\<lambda>cell. is_flagged (state cell)) (cells b)))"

subsection \<open>Board states and what is counted on them\<close>

definition num_revealed :: "Board \<Rightarrow> int" where
  "num_revealed b = int (length (filter (\<lambda>cell. is_revealed (state cell)) (cells b)))"

definition num_safe_revealed :: "Board \<Rightarrow> int" where
  "num_safe_revealed b =
     int (length (filter (\<lambda>cell. is_revealed (state cell) \<and> \<not> is_mine (state cell)) (cells b)))"

definition num_mine_cells :: "Board \<Rightarrow> int" where
  "num_mine_cells b = int (length (filter (\<lambda>cell. is_mine (state cell)) (cells b)))"

text \<open>The cell list has one cell per grid position.\<close>

definition wf_board :: "Board \<Rightarrow> bool" where
  "wf_board b \<longleftrightarrow> length (cells b) = nat (cols b) * nat (rows b)"

text \<open>
  The boards a caller can hold: a freshly constructed one, and whatever \<open>reveal\<close>
  and \<open>toggle_flag\<close> leave behind when they return. A call that raises ends the round.
\<close>

inductive reachable :: "Board \<Rightarrow> bool" where
  init: "Board_init cs rs mines = Inr b \<Longrightarrow> reachable b"
| after_reveal: "reachable b \<Longrightarrow> is_shuffle shuffle \<Longrightarrow> reveal shuffle b c r = Inr b' \<Longrightarrow> reachable b'"
| after_toggle_flag: "reachable b \<Longrightarrow> toggle_flag b c r = Inr b' \<Longrightarrow> reachable b'"

definition keeps_play :: "Board \<Rightarrow> Board \<Rightarrow> bool" where
  "keeps_play b b' \<longleftrightarrow>
     cols b' = cols b \<and> rows b' = rows b \<and> num_mines b' = num_mines b
     \<and> revealed_count b' = revealed_count b \<and> game_over b' = game_over b \<and> win b' = win b
     \<and> map (\<lambda>cell. (is_revealed (state cell), is_flagged (state cell))) (cells b')
       = map (\<lambda>cell. (is_revealed (state cell), is_flagged (state cell))) (cells b)"

text \<open>
  What every board a caller can hold satisfies, apart from the win test: the grid is
  complete; before placement nothing is a mine, nothing is revealed and the round is
  open; the revealed count is the number of revealed cells that are not mines; a mine
  is revealed only after a loss; a cell both flagged and revealed is a mine; a won
  board has every non-mine cell revealed; placement puts down exactly the requested
  number of mines.
\<close>

definition inv_core :: "Board \<Rightarrow> bool" where
  "inv_core b \<longleftrightarrow>
     wf_board b
     \<and> (\<not> mines_placed b \<longrightarrow>
          (\<forall>cell \<in> set (cells b). \<not> is_mine (state cell) \<and> \<not> is_revealed (state cell))
          \<and> \<not> game_over b \<and> \<not> win b)
     \<and> revealed_count b = num_safe_revealed b
     \<and> (\<not> game_over b \<longrightarrow> (\<forall>cell \<in> set (cells b). is_revealed (state cell) \<longrightarrow> \<not> is_mine (state cell)))
     \<and> (\<forall>cell \<in> set (cells b). is_flagged (state cell) \<and> is_revealed (state cell) \<longrightarrow> is_mine (state cell))
     \<and> (win b \<longrightarrow> (\<forall>cell \<in> set (cells b). \<not> is_mine (state cell) \<longrightarrow> is_revealed (state cell)))
     \<and> (mines_placed b \<longrightarrow> num_mine_cells b = max 0 (num_mines b))"

text \<open>The flood fill changes nothing but \<open>is_revealed\<close> fields and the revealed count.\<close>

definition same_settings :: "Board \<Rightarrow> Board \<Rightarrow> bool" where
  "same_settings b b' \<longleftrightarrow>
     cols b' = cols b \<and> rows b' = rows b \<and> num_mines b' = num_mines b
     \<and> mines_placed b' = mines_placed b \<and> game_over b' = game_over b \<and> win b' = win b
     \<and> map (\<lambda>cell. (is_mine (state cell), is_flagged (state cell))) (cells b')
       = map (\<lambda>cell. (is_mine (state cell), is_flagged (state cell))) (cells b)"

text \<open>One step of the flood fill: a hidden, unflagged, mine-free cell is revealed and counted.\<close>

definition reveal_step :: "nat \<Rightarrow> Board \<Rightarrow> Board" where
  "reveal_step k b = upd_state (\<lambda>s. s\<lparr>is_revealed := True\<rparr>) k b\<lparr>revealed_count := revealed_count b + 1\<rparr>"

text \<open>
  The boards a caller can hold also satisfy the win test of the code: once mines are
  placed and the round is not lost, a revealed count of \<open>cols * rows - num_mines\<close>
  comes with \<open>win\<close>.
\<close>

definition board_inv :: "Board \<Rightarrow> bool" where
  "board_inv b \<longleftrightarrow>
     inv_core b
     \<and> (mines_placed b \<and> \<not> game_over b \<and> revealed_count b = cols b * rows b - num_mines b
          \<longrightarrow> win b)"

text \<open>
  The part of \<open>reveal\<close> that runs once mines are on the board: the flag test, the loss
  path, and the flood fill followed by the win test.
\<close>

definition reveal_cell :: "Board \<Rightarrow> int \<Rightarrow> int \<Rightarrow> nat \<Rightarrow> error + Board" where
  "reveal_cell b1 c r k =
     (if is_flagged (state (cells b1 ! k)) then Inr b1
      else if is_mine (state (cells b1 ! k))
      then Inr (reveal_all_mines
                  (upd_state (\<lambda>s. s\<lparr>is_revealed := True\<rparr>) k b1
                     \<lparr>game_over := True\<rparr>))
      else
        (case flood b1 [(c, r)] of
           Inl e \<Rightarrow> Inl e
         | Inr b2 \<Rightarrow> Inr (check_win b2)))"

text \<open>A board differs from another in revealed cells, revealed count and terminal flags only.\<close>

definition same_mines :: "Board \<Rightarrow> Board \<Rightarrow> bool" where
  "same_mines b b' \<longleftrightarrow>
     cols b' = cols b \<and> rows b' = rows b \<and> num_mines b' = num_mines b
     \<and> mines_placed b' = mines_placed b
     \<and> map (\<lambda>cell. (is_mine (state cell), is_flagged (state cell))) (cells b')
       = map (\<lambda>cell. (is_mine (state cell), is_flagged (state cell))) (cells b)"

text \<open>
  Boards of two short rounds, written out. \<open>cell_of c r m v f a\<close> is the cell at
  \<open>(c, r)\<close> with \<open>is_mine = m\<close>, \<open>is_revealed = v\<close>, \<open>is_flagged = f\<close>, \<open>adjacent = a\<close>.
  The shuffle is the identity, so the mines go to the first pool positions in
  row-major order.
\<close>

definition cell_of :: "int \<Rightarrow> int \<Rightarrow> bool \<Rightarrow> bool \<Rightarrow> bool \<Rightarrow> int \<Rightarrow> Cell" where
  "cell_of c r m v f a =
     \<lparr>col = c, row = r, state = \<lparr>is_mine = m, is_revealed = v, is_flagged = f, adjacent = a\<rparr>\<rparr>"

text \<open>\<open>Board(4, 1, 1)\<close>.\<close>

definition fresh_4x1 :: Board where
  "fresh_4x1 =
     \<lparr>cols = 4, rows = 1, num_mines = 1,
      cells = [cell_of 0 0 False False False 0, cell_of 1 0 False False False 0,
               cell_of 2 0 False False False 0, cell_of 3 0 False False False 0],
      mines_placed = False, revealed_count = 0, game_over = False, win = False\<rparr>"

text \<open>After \<open>reveal(0, 0)\<close>: the mine is at \<open>(2, 0)\<close>, two cells are open.\<close>

definition opened_4x1 :: Board where
  "opened_4x1 =
     \<lparr>cols = 4, rows = 1, num_mines = 1,
      cells = [cell_of 0 0 False True False 0, cell_of 1 0 False True False 1,
               cell_of 2 0 True False False 0, cell_of 3 0 False False False 1],
      mines_placed = True, revealed_count = 2, game_over = False, win = False\<rparr>"

text \<open>Then \<open>reveal(2, 0)\<close>: the mine is hit.\<close>

definition lost_4x1 :: Board where
  "lost_4x1 =
     \<lparr>cols = 4, rows = 1, num_mines = 1,
      cells = [cell_of 0 0 False True False 0, cell_of 1 0 False True False 1,
               cell_of 2 0 True True False 0, cell_of 3 0 False False False 1],
      mines_placed = True, revealed_count = 2, game_over = True, win = False\<rparr>"

text \<open>Or, from \<open>opened_4x1\<close>, \<open>reveal(3, 0)\<close>: the last safe cell, the round is won.\<close>

definition won_4x1 :: Board where
  "won_4x1 =
     \<lparr>cols = 4, rows = 1, num_mines = 1,
      cells = [cell_of 0 0 False True False 0, cell_of 1 0 False True False 1,
               cell_of 2 0 True False False 0, cell_of 3 0 False True False 1],
      mines_placed = True, revealed_count = 3, game_over = False, win = True\<rparr>"

text \<open>And then \<open>reveal(2, 0)\<close> on the won board.\<close>

definition won_then_lost_4x1 :: Board where
  "won_then_lost_4x1 =
     \<lparr>cols = 4, rows = 1, num_mines = 1,
      cells = [cell_of 0 0 False True False 0, cell_of 1 0 False True False 1,
               cell_of 2 0 True True False 0, cell_of 3 0 False True False 1],
      mines_placed = True, revealed_count = 3, game_over = True, win = True\<rparr>"

text \<open>\<open>Board(4, 1, 1)\<close> after \<open>toggle_flag(0, 0)\<close>, and after \<open>reveal(0, 0)\<close> on top of that.\<close>

definition flagged_4x1 :: Board where
  "flagged_4x1 =
     \<lparr>cols = 4, rows = 1, num_mines = 1,
      cells = [cell_of 0 0 False False True 0, cell_of 1 0 False False False 0,
               cell_of 2 0 False False False 0, cell_of 3 0 False False False 0],
      mines_placed = False, revealed_count = 0, game_over = False, win = False\<rparr>"

definition flagged_placed_4x1 :: Board where
  "flagged_placed_4x1 =
     \<lparr>cols = 4, rows = 1, num_mines = 1,
      cells = [cell_of 0 0 False False True 0, cell_of 1 0 False False False 1,
               cell_of 2 0 True False False 0, cell_of 3 0 False False False 1],
      mines_placed = True, revealed_count = 0, game_over = False, win = False\<rparr>"

text \<open>
  \<open>Board(5, 1, 2)\<close> after \<open>reveal(0, 0)\<close> (mines at \<open>(2, 0)\<close> and \<open>(3, 0)\<close>) and
  \<open>toggle_flag(2, 0)\<close>; then \<open>reveal(3, 0)\<close> hits the other mine.
\<close>

definition fresh_5x1 :: Board where
  "fresh_5x1 =
     \<lparr>cols = 5, rows = 1, num_mines = 2,
      cells = [cell_of 0 0 False False False 0, cell_of 1 0 False False False 0,
               cell_of 2 0 False False False 0, cell_of 3 0 False False False 0,
               cell_of 4 0 False False False 0],
      mines_placed = False, revealed_count = 0, game_over = False, win = False\<rparr>"

definition opened_5x1 :: Board where
  "opened_5x1 =
     \<lparr>cols = 5, rows = 1, num_mines = 2,
      cells = [cell_of 0 0 False True False 0, cell_of 1 0 False True False 1,
               cell_of 2 0 True False False 0, cell_of 3 0 True False False 0,
               cell_of 4 0 False False False 1],
      mines_placed = True, revealed_count = 2, game_over = False, win = False\<rparr>"

definition flagged_5x1 :: Board where
  "flagged_5x1 =
     \<lparr>cols = 5, rows = 1, num_mines = 2,
      cells = [cell_of 0 0 False True False 0, cell_of 1 0 False True False 1,
               cell_of 2 0 True False True 0, cell_of 3 0 True False False 0,
               cell_of 4 0 False False False 1],
      mines_placed = True, revealed_count = 2, game_over = False, win = False\<rparr>"

definition lost_5x1 :: Board where
  "lost_5x1 =
     \<lparr>cols = 5, rows = 1, num_mines = 2,
      cells = [cell_of 0 0 False True False 0, cell_of 1 0 False True False 1,
               cell_of 2 0 True True True 0, cell_of 3 0 True True False 0,
               cell_of 4 0 False False False 1],
      mines_placed = True, revealed_count = 2, game_over = True, win = False\<rparr>"

text \<open>
  \<open>Board(2, 1, 5)\<close>, which asks for more mines than the grid has cells, and the same
  board after \<open>toggle_flag(0, 0)\<close>.
\<close>

definition fresh_2x1 :: Board where
  "fresh_2x1 =
     \<lparr>cols = 2, rows = 1, num_mines = 5,
      cells = [cell_of 0 0 False False False 0, cell_of 1 0 False False False 0],
      mines_placed = False, revealed_count = 0, game_over = False, win = False\<rparr>"

definition flagged_2x1 :: Board where
  "flagged_2x1 =
     \<lparr>cols = 2, rows = 1, num_mines = 5,
      cells = [cell_of 0 0 False False True 0, cell_of 1 0 False False False 0],
      mines_placed = False, revealed_count = 0, game_over = False, win = False\<rparr>"

section \<open>Coordinates and the cell list\<close>

lemma py_pos_less: "py_pos n i = Inr k \<Longrightarrow> k < n"
  by (auto simp: py_pos_def split: if_splits)

lemma index_bounds:
  assumes "is_inbounds b c r"
  shows "0 \<le> index b c r" and "index b c r < cols b * rows b"
proof -
  from assms have c: "0 \<le> c" "c < cols b" and r: "0 \<le> r" "r < rows b"
    by (auto simp: is_inbounds_def)
  show "0 \<le> index b c r" using c r by (simp add: index_def)
  have "(r + 1) * cols b \<le> rows b * cols b"
    using r c by (intro mult_right_mono) auto
  then show "index b c r < cols b * rows b"
    using c by (simp add: index_def algebra_simps)
qed

lemma nat_mult_int: "0 \<le> a \<Longrightarrow> 0 \<le> b \<Longrightarrow> int (nat a * nat b) = a * b"
  by simp

lemma cell_pos_inbounds:
  assumes "wf_board b" and "is_inbounds b c r"
  shows "cell_pos b c r = Inr (nat (index b c r))"
proof -
  have "0 \<le> cols b" "0 \<le> rows b" using assms(2) by (auto simp: is_inbounds_def)
  then have "int (length (cells b)) = cols b * rows b"
    using assms(1) by (simp add: wf_board_def)
  then show ?thesis
    using index_bounds[OF assms(2)] by (simp add: cell_pos_def py_pos_def)
qed

lemma index_less_length:
  assumes "wf_board b" and "is_inbounds b c r"
  shows "nat (index b c r) < length (cells b)"
  using cell_pos_inbounds[OF assms] by (simp add: cell_pos_def py_pos_less)

lemma index_inj:
  assumes "is_inbounds b c r" and "is_inbounds b c' r'" and "index b c r = index b c' r'"
  shows "c = c' \<and> r = r'"
proof -
  from assms(1,2) have c: "0 \<le> c" "c < cols b" "0 \<le> c'" "c' < cols b"
    by (auto simp: is_inbounds_def)
  have "(r * cols b + c) mod cols b = c" "(r' * cols b + c') mod cols b = c'"
    using c by simp_all
  with assms(3) have cc: "c = c'" by (simp add: index_def)
  have "(r * cols b + c) div cols b = r" "(r' * cols b + c') div cols b = r'"
    using c by simp_all
  with assms(3) have "r = r'" by (simp add: index_def)
  with cc show ?thesis by simp
qed

lemma set_py_range: "set (py_range n) = {i. 0 \<le> i \<and> i < n}"
proof -
  have "int ` {0..<nat n} = {i. 0 \<le> i \<and> i < n}"
  proof (intro set_eqI iffI)
    fix i assume "i \<in> {i. 0 \<le> i \<and> i < n}"
    then have "nat i \<in> {0..<nat n}" "int (nat i) = i" by auto
    then show "i \<in> int ` {0..<nat n}" by (metis imageI)
  qed auto
  then show ?thesis by (simp add: py_range_def)
qed

lemma distinct_py_range: "distinct (py_range n)"
  by (simp add: py_range_def distinct_map)

lemma length_py_range: "length (py_range n) = nat n"
  by (simp add: py_range_def)

lemma set_all_positions: "set (all_positions b) = {(c, r). is_inbounds b c r}"
  by (auto simp: all_positions_def set_py_range is_inbounds_def)

lemma all_positions_product:
  "all_positions b = map prod.swap (List.product (py_range (rows b)) (py_range (cols b)))"
  by (simp add: all_positions_def product_concat_map map_concat o_def)

lemma distinct_all_positions: "distinct (all_positions b)"
  by (simp add: all_positions_product distinct_map distinct_product distinct_py_range)

lemma length_all_positions: "length (all_positions b) = nat (cols b) * nat (rows b)"
  by (simp add: all_positions_def length_concat o_def length_py_range sum_list_triv)

lemma keeps_play_refl: "keeps_play b b"
  by (simp add: keeps_play_def)

lemma keeps_play_trans: "keeps_play a b \<Longrightarrow> keeps_play b c \<Longrightarrow> keeps_play a c"
  by (simp add: keeps_play_def)

lemma keeps_play_length:
  assumes "keeps_play b b'"
  shows "length (cells b') = length (cells b)"
proof -
  let ?f = "\<lambda>cell. (is_revealed (state cell), is_flagged (state cell))"
  have "map ?f (cells b') = map ?f (cells b)"
    using assms by (simp add: keeps_play_def)
  then have "length (map ?f (cells b')) = length (map ?f (cells b))"
    by (rule arg_cong)
  then show ?thesis by simp
qed

lemma keeps_play_wf: "keeps_play b b' \<Longrightarrow> wf_board b' = wf_board b"
  using keeps_play_length[of b b'] by (simp add: wf_board_def keeps_play_def)

lemma keeps_play_nth:
  assumes "keeps_play b b'" and "j < length (cells b)"
  shows "is_revealed (state (cells b' ! j)) = is_revealed (state (cells b ! j))"
    and "is_flagged (state (cells b' ! j)) = is_flagged (state (cells b ! j))"
proof -
  let ?f = "\<lambda>cell. (is_revealed (state cell), is_flagged (state cell))"
  have "map ?f (cells b') ! j = map ?f (cells b) ! j"
    using assms(1) by (simp add: keeps_play_def)
  moreover have "j < length (cells b')" using assms keeps_play_length by simp
  ultimately have "?f (cells b' ! j) = ?f (cells b ! j)"
    using assms(2) by simp
  then show "is_revealed (state (cells b' ! j)) = is_revealed (state (cells b ! j))"
    and "is_flagged (state (cells b' ! j)) = is_flagged (state (cells b ! j))" by simp_all
qed

lemma keeps_play_grid:
  assumes "keeps_play b b'"
  shows "index b' = index b" and "is_inbounds b' = is_inbounds b"
    and "neighbors b' = neighbors b" and "all_positions b' = all_positions b"
    and "cell_pos b' = cell_pos b"
proof -
  have g: "cols b' = cols b" "rows b' = rows b"
    using assms by (simp_all add: keeps_play_def)
  have l: "length (cells b') = length (cells b)"
    using assms by (rule keeps_play_length)
  have x: "index b' c r = index b c r" for c r
    unfolding index_def g ..
  then show "index b' = index b" by (intro ext)
  have i: "is_inbounds b' c r = is_inbounds b c r" for c r
    unfolding is_inbounds_def g ..
  then show "is_inbounds b' = is_inbounds b" by (intro ext)
  have "neighbors b' c r = neighbors b c r" for c r
    unfolding neighbors_def i ..
  then show "neighbors b' = neighbors b" by (intro ext)
  show "all_positions b' = all_positions b"
    unfolding all_positions_def g ..
  have "cell_pos b' c r = cell_pos b c r" for c r
    unfolding cell_pos_def x l ..
  then show "cell_pos b' = cell_pos b" by (intro ext)
qed

lemma upd_state_fields [simp]:
  "cols (upd_state f k b) = cols b" "rows (upd_state f k b) = rows b"
  "num_mines (upd_state f k b) = num_mines b" "mines_placed (upd_state f k b) = mines_placed b"
  "revealed_count (upd_state f k b) = revealed_count b"
  "game_over (upd_state f k b) = game_over b" "win (upd_state f k b) = win b"
  "length (cells (upd_state f k b)) = length (cells b)"
  by (simp_all add: upd_state_def)

lemma upd_state_nth:
  "j < length (cells b) \<Longrightarrow>
   state (cells (upd_state f k b) ! j) = (if j = k then f (state (cells b ! k)) else state (cells b ! j))"
  by (simp add: upd_state_def nth_list_update)

lemma upd_state_keeps_play:
  assumes "\<And>s. is_revealed (f s) = is_revealed s" and "\<And>s. is_flagged (f s) = is_flagged s"
  shows "keeps_play b (upd_state f k b)"
  unfolding keeps_play_def
  by (simp add: list_eq_iff_nth_eq upd_state_nth assms)

lemma upd_state_mines:
  assumes "\<And>s. is_mine (f s) = is_mine s"
  shows "map (\<lambda>cell. is_mine (state cell)) (cells (upd_state f k b))
       = map (\<lambda>cell. is_mine (state cell)) (cells b)"
  by (simp add: list_eq_iff_nth_eq upd_state_nth assms)

lemma py_get_inrange: "0 \<le> i \<Longrightarrow> i < int (length xs) \<Longrightarrow> py_get xs i = Inr (xs ! nat i)"
  by (simp add: py_get_def py_pos_def)

lemma mark_mines_spec:
  assumes "wf_board b"
    and "\<forall>i \<in> set is. 0 \<le> i \<and> i < int (length sh)"
    and "\<forall>p \<in> set sh. is_inbounds b (fst p) (snd p)"
  shows "\<exists>b1. mark_mines b sh is = Inr b1 \<and> keeps_play b b1 \<and> mines_placed b1 = mines_placed b
          \<and> (\<forall>j < length (cells b).
                is_mine (state (cells b1 ! j)) \<longleftrightarrow>
                  is_mine (state (cells b ! j))
                  \<or> (\<exists>i \<in> set is. j = nat (index b (fst (sh ! nat i)) (snd (sh ! nat i)))))"
  using assms
proof (induction "is" arbitrary: b)
  case Nil
  then show ?case by (simp add: keeps_play_refl)
next
  case (Cons i rest)
  obtain c r where cr: "sh ! nat i = (c, r)" by (cases "sh ! nat i")
  have i: "0 \<le> i" "i < int (length sh)" using Cons.prems(2) by auto
  then have "sh ! nat i \<in> set sh" by simp
  then have inb: "is_inbounds b c r" using Cons.prems(3) cr by fastforce
  let ?k = "nat (index b c r)"
  let ?b = "upd_state (\<lambda>s. s\<lparr>is_mine := True\<rparr>) ?k b"
  have kp: "keeps_play b ?b" by (rule upd_state_keeps_play) simp_all
  have pos: "cell_pos b c r = Inr ?k" by (rule cell_pos_inbounds[OF Cons.prems(1) inb])
  have klen: "?k < length (cells b)" by (rule index_less_length[OF Cons.prems(1) inb])
  have wf': "wf_board ?b" using kp Cons.prems(1) by (simp add: keeps_play_wf)
  have inb': "\<forall>p \<in> set sh. is_inbounds ?b (fst p) (snd p)"
    using Cons.prems(3) by (simp add: keeps_play_grid[OF kp])
  from Cons.IH[OF wf' _ inb'] Cons.prems(2)
  obtain b1 where b1: "mark_mines ?b sh rest = Inr b1" "keeps_play ?b b1"
      "mines_placed b1 = mines_placed ?b"
      "\<forall>j < length (cells ?b). is_mine (state (cells b1 ! j)) \<longleftrightarrow>
          is_mine (state (cells ?b ! j))
          \<or> (\<exists>i \<in> set rest. j = nat (index ?b (fst (sh ! nat i)) (snd (sh ! nat i))))"
    by auto
  have step: "mark_mines b sh (i # rest) = Inr b1"
    using b1(1) pos cr i by (simp add: py_get_inrange)
  have mines: "is_mine (state (cells b1 ! j)) \<longleftrightarrow>
          is_mine (state (cells b ! j))
          \<or> (\<exists>i' \<in> set (i # rest). j = nat (index b (fst (sh ! nat i')) (snd (sh ! nat i'))))"
    if "j < length (cells b)" for j
  proof -
    have a: "is_mine (state (cells ?b ! j)) \<longleftrightarrow> j = ?k \<or> is_mine (state (cells b ! j))"
      using that by (simp add: upd_state_nth)
    have b: "is_mine (state (cells b1 ! j)) \<longleftrightarrow>
          is_mine (state (cells ?b ! j))
          \<or> (\<exists>i \<in> set rest. j = nat (index b (fst (sh ! nat i)) (snd (sh ! nat i))))"
      using b1(4) that by (simp add: keeps_play_grid(1)[OF kp])
    have c: "?k = nat (index b (fst (sh ! nat i)) (snd (sh ! nat i)))"
      by (simp add: cr)
    show ?thesis
      using a b c by auto
  qed
  have "keeps_play b b1" by (rule keeps_play_trans[OF kp b1(2)])
  moreover have "mines_placed b1 = mines_placed b" using b1(3) by simp
  ultimately show ?case
    using step mines by blast
qed

lemma neighbors_inbounds: "(nc, nr) \<in> set (neighbors b c r) \<Longrightarrow> is_inbounds b nc nr"
  by (auto simp: neighbors_def)

lemma get_state_inbounds:
  "wf_board b \<Longrightarrow> is_inbounds b c r \<Longrightarrow> get_state b c r = Inr (state (cells b ! nat (index b c r)))"
  by (simp add: get_state_def cell_pos_inbounds)

lemma count_mines_succeeds:
  assumes "wf_board b" and "\<forall>p \<in> set ps. is_inbounds b (fst p) (snd p)"
  shows "\<exists>n. count_mines b ps cnt = Inr n"
  using assms(2)
proof (induction ps arbitrary: cnt)
  case Nil
  then show ?case by simp
next
  case (Cons p ps)
  obtain nc nr where p: "p = (nc, nr)" by (cases p)
  with Cons.prems have "is_inbounds b nc nr" by simp
  then show ?case
    using Cons p by (simp add: get_state_inbounds[OF assms(1)])
qed

lemma compute_adjacent_spec:
  assumes "wf_board b" and "\<forall>p \<in> set ps. is_inbounds b (fst p) (snd p)"
  shows "\<exists>b2. compute_adjacent b ps = Inr b2 \<and> keeps_play b b2 \<and> mines_placed b2 = mines_placed b
           \<and> map (\<lambda>cell. is_mine (state cell)) (cells b2) = map (\<lambda>cell. is_mine (state cell)) (cells b)"
  using assms
proof (induction ps arbitrary: b)
  case Nil
  then show ?case by (simp add: keeps_play_refl)
next
  case (Cons p ps)
  obtain c r where p: "p = (c, r)" by (cases p)
  with Cons.prems have inb: "is_inbounds b c r" by simp
  let ?k = "nat (index b c r)"
  have pos: "cell_pos b c r = Inr ?k" by (rule cell_pos_inbounds[OF Cons.prems(1) inb])
  show ?case
  proof (cases "is_mine (state (cells b ! ?k))")
    case True
    then show ?thesis using Cons p pos by simp
  next
    case False
    have "\<forall>q \<in> set (neighbors b c r). is_inbounds b (fst q) (snd q)"
      using neighbors_inbounds by auto
    from count_mines_succeeds[OF Cons.prems(1) this]
    obtain n where n: "count_mines b (neighbors b c r) 0 = Inr n" by blast
    let ?b = "upd_state (\<lambda>s. s\<lparr>adjacent := n\<rparr>) ?k b"
    have kp: "keeps_play b ?b" by (rule upd_state_keeps_play) simp_all
    have m: "map (\<lambda>cell. is_mine (state cell)) (cells ?b) = map (\<lambda>cell. is_mine (state cell)) (cells b)"
      by (rule upd_state_mines) simp
    have wf': "wf_board ?b" using kp Cons.prems(1) by (simp add: keeps_play_wf)
    have inb': "\<forall>p \<in> set ps. is_inbounds ?b (fst p) (snd p)"
      using Cons.prems(2) by (simp add: keeps_play_grid[OF kp])
    from Cons.IH[OF wf' inb']
    obtain b2 where b2: "compute_adjacent ?b ps = Inr b2" "keeps_play ?b b2"
      "mines_placed b2 = mines_placed ?b"
      "map (\<lambda>cell. is_mine (state cell)) (cells b2) = map (\<lambda>cell. is_mine (state cell)) (cells ?b)"
      by blast
    have "compute_adjacent b (p # ps) = Inr b2"
      using b2(1) p pos False n by simp
    then show ?thesis
      using keeps_play_trans[OF kp b2(2)] b2(3,4) m by simp
  qed
qed

lemma mines_map_nth:
  assumes "map (\<lambda>cell. is_mine (state cell)) (cells b') = map (\<lambda>cell. is_mine (state cell)) (cells b)"
    and "j < length (cells b)"
  shows "is_mine (state (cells b' ! j)) = is_mine (state (cells b ! j))"
proof -
  let ?f = "\<lambda>cell. is_mine (state cell)"
  have "length (map ?f (cells b')) = length (map ?f (cells b))"
    using assms(1) by (rule arg_cong)
  then have l: "j < length (cells b')" using assms(2) by simp
  have "map ?f (cells b') ! j = map ?f (cells b) ! j" using assms(1) by simp
  then show ?thesis using l assms(2) by simp
qed

lemma shuffle_facts:
  assumes "is_shuffle sh"
  shows "set (sh xs) = set xs" and "length (sh xs) = length xs" and "distinct (sh xs) = distinct xs"
proof -
  have m: "mset (sh xs) = mset xs" using assms by (simp add: is_shuffle_def)
  show "set (sh xs) = set xs" using m by (rule mset_eq_setD)
  show "length (sh xs) = length xs" using m by (rule mset_eq_length)
  show "distinct (sh xs) = distinct xs" using m by (rule mset_eq_imp_distinct_iff)
qed

lemma pool_facts:
  shows "distinct (pool b sc sr)"
    and "set (pool b sc sr) = {(c, r). is_inbounds b c r} - forbidden b sc sr"
  by (auto simp: pool_def distinct_all_positions set_all_positions)

text \<open>The mines are exactly the first \<open>num_mines\<close> entries of the shuffled pool.\<close>

lemma place_mines_spec:
  assumes wf: "wf_board b" and sh: "is_shuffle sh"
    and enough: "num_mines b \<le> int (length (pool b sc sr))"
    and clean: "\<forall>cell \<in> set (cells b). \<not> is_mine (state cell)"
  shows "\<exists>b'. place_mines sh b sc sr = Inr b' \<and> keeps_play b b' \<and> mines_placed b'
           \<and> (\<forall>c r. is_inbounds b c r \<longrightarrow>
                 (is_mine (state (cells b' ! nat (index b c r)))
                  \<longleftrightarrow> (c, r) \<in> set (take (nat (num_mines b)) (sh (pool b sc sr)))))
           \<and> (\<forall>j < length (cells b). is_mine (state (cells b' ! j)) \<longrightarrow>
                 (\<exists>c r. (c, r) \<in> set (take (nat (num_mines b)) (sh (pool b sc sr)))
                        \<and> j = nat (index b c r)))"
proof -
  let ?sp = "sh (pool b sc sr)"
  let ?n = "nat (num_mines b)"
  let ?chosen = "set (take ?n ?sp)"
  have sp_set: "set ?sp = {(c, r). is_inbounds b c r} - forbidden b sc sr"
    using shuffle_facts(1)[OF sh] pool_facts(2) by simp
  have sp_len: "length ?sp = length (pool b sc sr)"
    using shuffle_facts(2)[OF sh] by simp
  have n_le: "?n \<le> length ?sp" using enough sp_len by simp
  have rng: "\<forall>i \<in> set (py_range (num_mines b)). 0 \<le> i \<and> i < int (length ?sp)"
    using enough sp_len by (auto simp: set_py_range)
  have inb: "\<forall>p \<in> set ?sp. is_inbounds b (fst p) (snd p)"
    using sp_set by auto
  from mark_mines_spec[OF wf rng inb]
  obtain b1 where b1: "mark_mines b ?sp (py_range (num_mines b)) = Inr b1" "keeps_play b b1"
    "mines_placed b1 = mines_placed b"
    "\<forall>j < length (cells b). is_mine (state (cells b1 ! j)) \<longleftrightarrow>
        is_mine (state (cells b ! j))
        \<or> (\<exists>i \<in> set (py_range (num_mines b)).
              j = nat (index b (fst (?sp ! nat i)) (snd (?sp ! nat i))))"
    by blast
  have wf1: "wf_board b1" using wf b1(2) by (simp add: keeps_play_wf)
  have "\<forall>p \<in> set (all_positions b1). is_inbounds b1 (fst p) (snd p)"
    by (auto simp: set_all_positions)
  from compute_adjacent_spec[OF wf1 this]
  obtain b2 where b2: "compute_adjacent b1 (all_positions b1) = Inr b2" "keeps_play b1 b2"
    "mines_placed b2 = mines_placed b1"
    "map (\<lambda>cell. is_mine (state cell)) (cells b2) = map (\<lambda>cell. is_mine (state cell)) (cells b1)"
    by blast
  let ?b' = "b2\<lparr>mines_placed := True\<rparr>"
  have res: "place_mines sh b sc sr = Inr ?b'"
    using b1(1) b2(1) by (simp add: place_mines_def)
  have kp: "keeps_play b ?b'"
    using keeps_play_trans[OF b1(2) b2(2)] by (simp add: keeps_play_def)
  have len1: "length (cells b1) = length (cells b)" using b1(2) by (rule keeps_play_length)
  have chosen: "?chosen = {?sp ! k | k. k < ?n}"
  proof -
    have e: "?chosen = (!) ?sp ` {0..<?n}" using nth_image[OF n_le] by simp
    show ?thesis unfolding e by auto
  qed
  have mine_at: "is_mine (state (cells ?b' ! j)) \<longleftrightarrow> (\<exists>p \<in> ?chosen. j = nat (index b (fst p) (snd p)))"
    if j: "j < length (cells b)" for j
  proof -
    have "is_mine (state (cells ?b' ! j)) = is_mine (state (cells b1 ! j))"
      using mines_map_nth[OF b2(4)] j len1 by simp
    moreover have "\<not> is_mine (state (cells b ! j))" using clean j by simp
    moreover have "(\<exists>i \<in> set (py_range (num_mines b)).
              j = nat (index b (fst (?sp ! nat i)) (snd (?sp ! nat i))))
        \<longleftrightarrow> (\<exists>p \<in> ?chosen. j = nat (index b (fst p) (snd p)))"
    proof
      assume "\<exists>i \<in> set (py_range (num_mines b)).
              j = nat (index b (fst (?sp ! nat i)) (snd (?sp ! nat i)))"
      then obtain i where i: "0 \<le> i" "i < num_mines b"
          "j = nat (index b (fst (?sp ! nat i)) (snd (?sp ! nat i)))"
        by (auto simp: set_py_range)
      then have "nat i < ?n" by simp
      then have "?sp ! nat i \<in> ?chosen" unfolding chosen by blast
      then show "\<exists>p \<in> ?chosen. j = nat (index b (fst p) (snd p))" using i(3) by blast
    next
      assume "\<exists>p \<in> ?chosen. j = nat (index b (fst p) (snd p))"
      then obtain p where p: "p \<in> ?chosen" "j = nat (index b (fst p) (snd p))" by blast
      from p(1) obtain k where "k < ?n" "p = ?sp ! k" unfolding chosen by blast
      with p(2) have k: "k < ?n" "j = nat (index b (fst (?sp ! k)) (snd (?sp ! k)))" by simp_all
      then have "int k \<in> set (py_range (num_mines b))" by (auto simp: set_py_range)
      then show "\<exists>i \<in> set (py_range (num_mines b)).
              j = nat (index b (fst (?sp ! nat i)) (snd (?sp ! nat i)))"
        using k(2) by force
    qed
    ultimately show ?thesis using b1(4) j by simp
  qed
  have chosen_inb: "is_inbounds b (fst p) (snd p)" if "p \<in> ?chosen" for p
    using that inb by (meson in_set_takeD)
  have at_pos: "is_mine (state (cells ?b' ! nat (index b c r))) \<longleftrightarrow> (c, r) \<in> ?chosen"
    if cr: "is_inbounds b c r" for c r
  proof -
    have j: "nat (index b c r) < length (cells b)" by (rule index_less_length[OF wf cr])
    show ?thesis
    proof
      assume "is_mine (state (cells ?b' ! nat (index b c r)))"
      then obtain p where p: "p \<in> ?chosen" "nat (index b c r) = nat (index b (fst p) (snd p))"
        using mine_at[OF j] by blast
      have "0 \<le> index b c r" "0 \<le> index b (fst p) (snd p)"
        using index_bounds(1) cr chosen_inb[OF p(1)] by simp_all
      with p(2) have "index b c r = index b (fst p) (snd p)" by simp
      from index_inj[OF cr chosen_inb[OF p(1)] this] have "p = (c, r)" by (cases p) simp
      with p(1) show "(c, r) \<in> ?chosen" by simp
    next
      assume "(c, r) \<in> ?chosen"
      then show "is_mine (state (cells ?b' ! nat (index b c r)))"
        using mine_at[OF j] by force
    qed
  qed
  have origin: "\<exists>c r. (c, r) \<in> ?chosen \<and> j = nat (index b c r)"
    if "j < length (cells b)" "is_mine (state (cells ?b' ! j))" for j
  proof -
    from mine_at[OF that(1)] that(2)
    obtain p where p: "p \<in> ?chosen" "j = nat (index b (fst p) (snd p))" by blast
    obtain c r where "p = (c, r)" by (cases p)
    with p show ?thesis by auto
  qed
  show ?thesis
    using res kp at_pos origin by (intro exI[of _ ?b']) simp
qed

lemma filter_length_update:
  assumes "k < length xs"
  shows "int (length (filter P (xs[k := v])))
       = int (length (filter P xs)) + (if P v then 1 else 0) - (if P (xs ! k) then 1 else 0)"
proof -
  have a: "xs[k := v] = take k xs @ v # drop (Suc k) xs"
    using assms by (rule upd_conv_take_nth_drop)
  have b: "xs = take k xs @ xs ! k # drop (Suc k) xs"
    using assms by (rule id_take_nth_drop)
  have "int (length (filter P xs))
      = int (length (filter P (take k xs))) + (if P (xs ! k) then 1 else 0)
        + int (length (filter P (drop (Suc k) xs)))"
    by (subst b) simp
  moreover have "int (length (filter P (xs[k := v])))
      = int (length (filter P (take k xs))) + (if P v then 1 else 0)
        + int (length (filter P (drop (Suc k) xs)))"
    by (subst a) simp
  ultimately show ?thesis by simp
qed

lemma set_update_all:
  assumes "\<forall>x \<in> set xs. P x" and "P v"
  shows "\<forall>x \<in> set (xs[k := v]). P x"
  using assms set_update_subset_insert[of xs k v] by auto

lemma same_settings_refl: "same_settings b b"
  by (simp add: same_settings_def)

lemma same_settings_trans: "same_settings a b \<Longrightarrow> same_settings b c \<Longrightarrow> same_settings a c"
  by (simp add: same_settings_def)

lemma same_settings_length:
  assumes "same_settings b b'"
  shows "length (cells b') = length (cells b)"
proof -
  let ?f = "\<lambda>cell. (is_mine (state cell), is_flagged (state cell))"
  have "map ?f (cells b') = map ?f (cells b)"
    using assms by (simp add: same_settings_def)
  then have "length (map ?f (cells b')) = length (map ?f (cells b))"
    by (rule arg_cong)
  then show ?thesis by simp
qed

lemma same_settings_nth:
  assumes "same_settings b b'" and "j < length (cells b)"
  shows "is_mine (state (cells b' ! j)) = is_mine (state (cells b ! j))"
    and "is_flagged (state (cells b' ! j)) = is_flagged (state (cells b ! j))"
proof -
  let ?f = "\<lambda>cell. (is_mine (state cell), is_flagged (state cell))"
  have "map ?f (cells b') ! j = map ?f (cells b) ! j"
    using assms(1) by (simp add: same_settings_def)
  moreover have "j < length (cells b')" using assms same_settings_length by simp
  ultimately have "?f (cells b' ! j) = ?f (cells b ! j)"
    using assms(2) by simp
  then show "is_mine (state (cells b' ! j)) = is_mine (state (cells b ! j))"
    and "is_flagged (state (cells b' ! j)) = is_flagged (state (cells b ! j))" by simp_all
qed

lemma same_settings_grid:
  assumes "same_settings b b'"
  shows "index b' = index b" and "is_inbounds b' = is_inbounds b"
    and "neighbors b' = neighbors b" and "cell_pos b' = cell_pos b"
proof -
  have g: "cols b' = cols b" "rows b' = rows b"
    using assms by (simp_all add: same_settings_def)
  have l: "length (cells b') = length (cells b)"
    using assms by (rule same_settings_length)
  have x: "index b' c r = index b c r" for c r
    unfolding index_def g ..
  then show "index b' = index b" by (intro ext)
  have i: "is_inbounds b' c r = is_inbounds b c r" for c r
    unfolding is_inbounds_def g ..
  then show "is_inbounds b' = is_inbounds b" by (intro ext)
  have "neighbors b' c r = neighbors b c r" for c r
    unfolding neighbors_def i ..
  then show "neighbors b' = neighbors b" by (intro ext)
  have "cell_pos b' c r = cell_pos b c r" for c r
    unfolding cell_pos_def x l ..
  then show "cell_pos b' = cell_pos b" by (intro ext)
qed

lemma reveal_step_settings: "same_settings b (reveal_step k b)"
  unfolding same_settings_def reveal_step_def
  by (simp add: list_eq_iff_nth_eq upd_state_nth)

lemma reveal_step_inv:
  assumes inv: "inv_core b" and placed: "mines_placed b" and k: "k < length (cells b)"
    and hidden: "\<not> is_revealed (state (cells b ! k))"
    and unflagged: "\<not> is_flagged (state (cells b ! k))"
    and safe: "\<not> is_mine (state (cells b ! k))"
  shows "inv_core (reveal_step k b)"
proof -
  let ?v = "(cells b ! k)\<lparr>state := (state (cells b ! k))\<lparr>is_revealed := True\<rparr>\<rparr>"
  let ?b = "reveal_step k b"
  have cells': "cells ?b = (cells b)[k := ?v]"
    by (simp add: reveal_step_def upd_state_def)
  have fields: "cols ?b = cols b" "rows ?b = rows b" "num_mines ?b = num_mines b"
    "mines_placed ?b = mines_placed b" "game_over ?b = game_over b" "win ?b = win b"
    "revealed_count ?b = revealed_count b + 1"
    by (simp_all add: reveal_step_def)
  have wf: "wf_board ?b" using inv by (simp add: inv_core_def wf_board_def cells' fields)
  have cnt: "num_safe_revealed ?b = num_safe_revealed b + 1"
    unfolding num_safe_revealed_def cells'
    using filter_length_update[OF k, of "\<lambda>cell. is_revealed (state cell) \<and> \<not> is_mine (state cell)" ?v]
      hidden safe by simp
  have mc: "num_mine_cells ?b = num_mine_cells b"
    unfolding num_mine_cells_def cells'
    using filter_length_update[OF k, of "\<lambda>cell. is_mine (state cell)" ?v] by simp
  have i4: "\<forall>cell \<in> set (cells ?b). is_revealed (state cell) \<longrightarrow> \<not> is_mine (state cell)"
    if "\<not> game_over b"
    unfolding cells' using that inv safe by (intro set_update_all) (simp_all add: inv_core_def)
  have i5: "\<forall>cell \<in> set (cells ?b). is_flagged (state cell) \<and> is_revealed (state cell) \<longrightarrow> is_mine (state cell)"
    unfolding cells' using inv unflagged by (intro set_update_all) (simp_all add: inv_core_def)
  have i6: "\<forall>cell \<in> set (cells ?b). \<not> is_mine (state cell) \<longrightarrow> is_revealed (state cell)"
    if "win b"
    unfolding cells' using that inv by (intro set_update_all) (simp_all add: inv_core_def)
  show ?thesis
    unfolding inv_core_def fields
    using wf placed cnt mc i4 i5 i6 inv by (simp add: inv_core_def)
qed

lemma push_neighbors_spec:
  assumes wf: "wf_board b"
    and ns: "\<forall>p \<in> set ns. is_inbounds b (fst p) (snd p)"
    and tv: "\<forall>p \<in> set tv. is_inbounds b (fst p) (snd p)
               \<and> \<not> is_mine (state (cells b ! nat (index b (fst p) (snd p))))"
  shows "\<exists>tv'. push_neighbors b ns tv = Inr tv'
           \<and> (\<forall>p \<in> set tv'. is_inbounds b (fst p) (snd p)
                 \<and> \<not> is_mine (state (cells b ! nat (index b (fst p) (snd p)))))"
  using ns tv
proof (induction ns arbitrary: tv)
  case Nil
  then show ?case by simp
next
  case (Cons p ns)
  obtain nc nr where p: "p = (nc, nr)" by (cases p)
  with Cons.prems(1) have inb: "is_inbounds b nc nr" by simp
  let ?s = "state (cells b ! nat (index b nc nr))"
  let ?tv = "if \<not> is_revealed ?s \<and> \<not> is_flagged ?s \<and> \<not> is_mine ?s then tv @ [(nc, nr)] else tv"
  have "\<forall>p \<in> set ?tv. is_inbounds b (fst p) (snd p)
               \<and> \<not> is_mine (state (cells b ! nat (index b (fst p) (snd p))))"
    using Cons.prems(2) inb by auto
  moreover have "\<forall>p \<in> set ns. is_inbounds b (fst p) (snd p)" using Cons.prems(1) by simp
  ultimately obtain tv' where "push_neighbors b ns ?tv = Inr tv'"
     "\<forall>p \<in> set tv'. is_inbounds b (fst p) (snd p)
                 \<and> \<not> is_mine (state (cells b ! nat (index b (fst p) (snd p))))"
    using Cons.IH by blast
  then show ?case
    using p by (simp add: get_state_inbounds[OF wf inb])
qed

lemma flood_unfold:
  "flood b to_visit =
     (if to_visit = [] then Inr b
      else
        (case cell_pos b (fst (last to_visit)) (snd (last to_visit)) of
           Inl e \<Rightarrow> Inl e
         | Inr k \<Rightarrow>
             if is_revealed (state (cells b ! k)) \<or> is_flagged (state (cells b ! k))
             then flood b (butlast to_visit)
             else
               if adjacent (state (cells b ! k)) = 0
               then
                 (case push_neighbors (reveal_step k b)
                         (neighbors b (fst (last to_visit)) (snd (last to_visit)))
                         (butlast to_visit) of
                    Inl e \<Rightarrow> Inl e
                  | Inr to_visit' \<Rightarrow> flood (reveal_step k b) to_visit')
               else flood (reveal_step k b) (butlast to_visit)))"
  unfolding reveal_step_def by (rule flood.simps)

lemma flood_spec:
  assumes "inv_core b" and "mines_placed b"
    and "\<forall>p \<in> set tv. is_inbounds b (fst p) (snd p)
               \<and> \<not> is_mine (state (cells b ! nat (index b (fst p) (snd p))))"
  shows "\<exists>b'. flood b tv = Inr b' \<and> inv_core b' \<and> same_settings b b'"
  using assms
proof (induction b tv rule: flood.induct)
  case (1 b tv)
  show ?case
  proof (cases "tv = []")
    case True
    then show ?thesis using "1.prems"(1) by (simp add: flood_unfold same_settings_refl)
  next
    case False
    obtain c r where cr: "last tv = (c, r)" by (cases "last tv")
    have wf: "wf_board b" using "1.prems"(1) by (simp add: inv_core_def)
    have "last tv \<in> set tv" using False by simp
    then have inb: "is_inbounds b c r"
      and safe: "\<not> is_mine (state (cells b ! nat (index b c r)))"
      using "1.prems"(3) cr by fastforce+
    let ?k = "nat (index b c r)"
    have pos: "cell_pos b (fst (last tv)) (snd (last tv)) = Inr ?k"
      using cell_pos_inbounds[OF wf inb] cr by simp
    have k: "?k < length (cells b)" by (rule index_less_length[OF wf inb])
    have rest: "\<forall>p \<in> set (butlast tv). is_inbounds b (fst p) (snd p)
               \<and> \<not> is_mine (state (cells b ! nat (index b (fst p) (snd p))))"
      using "1.prems"(3) by (meson in_set_butlastD)
    show ?thesis
    proof (cases "is_revealed (state (cells b ! ?k)) \<or> is_flagged (state (cells b ! ?k))")
      case True
      from "1.IH"(1)[OF False pos True "1.prems"(1,2) rest]
      show ?thesis using False pos True by (subst flood_unfold) simp
    next
      case skip: False
      let ?b = "reveal_step ?k b"
      have ss: "same_settings b ?b" by (rule reveal_step_settings)
      have inv': "inv_core ?b"
        using reveal_step_inv[OF "1.prems"(1,2) k] skip safe by simp
      have placed': "mines_placed ?b" using "1.prems"(2) by (simp add: reveal_step_def)
      have wf': "wf_board ?b" using inv' by (simp add: inv_core_def)
      have carry: "is_inbounds ?b (fst p) (snd p)
               \<and> \<not> is_mine (state (cells ?b ! nat (index ?b (fst p) (snd p))))"
        if "is_inbounds b (fst p) (snd p)
               \<and> \<not> is_mine (state (cells b ! nat (index b (fst p) (snd p))))" for p
        using that same_settings_nth(1)[OF ss index_less_length[OF wf]]
        by (simp add: same_settings_grid[OF ss])
      have rest': "\<forall>p \<in> set (butlast tv). is_inbounds ?b (fst p) (snd p)
               \<and> \<not> is_mine (state (cells ?b ! nat (index ?b (fst p) (snd p))))"
        using rest carry by blast
      show ?thesis
      proof (cases "adjacent (state (cells b ! ?k)) = 0")
        case True
        have ns: "\<forall>p \<in> set (neighbors b c r). is_inbounds ?b (fst p) (snd p)"
          using neighbors_inbounds by (auto simp: same_settings_grid[OF ss])
        from push_neighbors_spec[OF wf' ns rest']
        obtain tv' where tv': "push_neighbors ?b (neighbors b c r) (butlast tv) = Inr tv'"
          "\<forall>p \<in> set tv'. is_inbounds ?b (fst p) (snd p)
                 \<and> \<not> is_mine (state (cells ?b ! nat (index ?b (fst p) (snd p))))"
          by blast
        have push: "push_neighbors
                         (upd_state (\<lambda>s. s\<lparr>is_revealed := True\<rparr>) ?k b
                            \<lparr>revealed_count := revealed_count b + 1\<rparr>)
                         (neighbors b (fst (last tv)) (snd (last tv)))
                         (butlast tv) = Inr tv'"
          using tv'(1) cr by (simp add: reveal_step_def)
        from "1.IH"(2)[OF False pos skip True push] inv' placed' tv'(2)
        obtain b' where "flood ?b tv' = Inr b'" "inv_core b'" "same_settings ?b b'"
          by (auto simp: reveal_step_def)
        then show ?thesis
          using False pos skip True tv'(1) cr same_settings_trans[OF ss]
          by (subst flood_unfold) simp
      next
        case nz: False
        from "1.IH"(3)[OF False pos skip nz] inv' placed' rest'
        obtain b' where "flood ?b (butlast tv) = Inr b'" "inv_core b'" "same_settings ?b b'"
          by (auto simp: reveal_step_def)
        then show ?thesis
          using False pos skip nz same_settings_trans[OF ss]
          by (subst flood_unfold) simp
      qed
    qed
  qed
qed

lemma inv_coreI:
  assumes "wf_board b"
    and "\<not> mines_placed b \<Longrightarrow>
          (\<forall>cell \<in> set (cells b). \<not> is_mine (state cell) \<and> \<not> is_revealed (state cell))
          \<and> \<not> game_over b \<and> \<not> win b"
    and "revealed_count b = num_safe_revealed b"
    and "\<not> game_over b \<Longrightarrow> \<forall>cell \<in> set (cells b). is_revealed (state cell) \<longrightarrow> \<not> is_mine (state cell)"
    and "\<forall>cell \<in> set (cells b). is_flagged (state cell) \<and> is_revealed (state cell) \<longrightarrow> is_mine (state cell)"
    and "win b \<Longrightarrow> \<forall>cell \<in> set (cells b). \<not> is_mine (state cell) \<longrightarrow> is_revealed (state cell)"
    and "mines_placed b \<Longrightarrow> num_mine_cells b = max 0 (num_mines b)"
  shows "inv_core b"
  unfolding inv_core_def using assms by blast

lemma inv_coreD:
  assumes "inv_core b"
  shows "wf_board b"
    and "\<not> mines_placed b \<Longrightarrow>
          (\<forall>cell \<in> set (cells b). \<not> is_mine (state cell) \<and> \<not> is_revealed (state cell))
          \<and> \<not> game_over b \<and> \<not> win b"
    and "revealed_count b = num_safe_revealed b"
    and "\<not> game_over b \<Longrightarrow> \<forall>cell \<in> set (cells b). is_revealed (state cell) \<longrightarrow> \<not> is_mine (state cell)"
    and "\<forall>cell \<in> set (cells b). is_flagged (state cell) \<and> is_revealed (state cell) \<longrightarrow> is_mine (state cell)"
    and "win b \<Longrightarrow> \<forall>cell \<in> set (cells b). \<not> is_mine (state cell) \<longrightarrow> is_revealed (state cell)"
    and "mines_placed b \<Longrightarrow> num_mine_cells b = max 0 (num_mines b)"
  using assms unfolding inv_core_def by blast+

lemma filter_conj_le: "length (filter (\<lambda>x. P x \<and> Q x) xs) \<le> length (filter Q xs)"
  by (induction xs) auto

lemma filter_conj_full:
  assumes "length (filter (\<lambda>x. P x \<and> Q x) xs) = length (filter Q xs)"
  shows "\<forall>x \<in> set xs. Q x \<longrightarrow> P x"
  using assms
proof (induction xs)
  case Nil
  then show ?case by simp
next
  case (Cons x xs)
  have le: "length (filter (\<lambda>x. P x \<and> Q x) xs) \<le> length (filter Q xs)"
    by (rule filter_conj_le)
  show ?case
  proof (cases "Q x")
    case True
    have px: "P x"
    proof (rule ccontr)
      assume "\<not> P x"
      with True Cons.prems have "length (filter (\<lambda>x. P x \<and> Q x) xs) = Suc (length (filter Q xs))"
        by simp
      with le show False by simp
    qed
    with True Cons.prems have "length (filter (\<lambda>x. P x \<and> Q x) xs) = length (filter Q xs)"
      by simp
    with Cons.IH px show ?thesis by simp
  next
    case False
    with Cons.prems have "length (filter (\<lambda>x. P x \<and> Q x) xs) = length (filter Q xs)"
      by simp
    with Cons.IH False show ?thesis by simp
  qed
qed

text \<open>When the revealed count reaches the win threshold, nothing is left for the sweep.\<close>

lemma win_threshold_all_revealed:
  assumes inv: "inv_core b" and placed: "mines_placed b"
    and pos: "0 \<le> cols b" "0 \<le> rows b"
    and hit: "revealed_count b = cols b * rows b - num_mines b"
  shows "\<forall>cell \<in> set (cells b). \<not> is_mine (state cell) \<longrightarrow> is_revealed (state cell)"
proof -
  let ?safe = "\<lambda>cell. \<not> is_mine (state cell)"
  let ?mine = "\<lambda>cell. is_mine (state cell)"
  have len: "int (length (cells b)) = cols b * rows b"
    using inv pos by (simp add: inv_core_def wf_board_def)
  have split: "length (filter ?mine (cells b)) + length (filter ?safe (cells b)) = length (cells b)"
    by (rule sum_length_filter_compl)
  have mines: "int (length (filter ?mine (cells b))) = max 0 (num_mines b)"
    using inv placed by (simp add: inv_core_def num_mine_cells_def)
  have safe_rev: "int (length (filter (\<lambda>cell. is_revealed (state cell) \<and> ?safe cell) (cells b)))
        = cols b * rows b - num_mines b"
    using inv hit by (simp add: inv_core_def num_safe_revealed_def)
  have le: "length (filter (\<lambda>cell. is_revealed (state cell) \<and> ?safe cell) (cells b))
        \<le> length (filter ?safe (cells b))"
    by (rule filter_conj_le)
  have "int (length (filter ?safe (cells b))) = cols b * rows b - max 0 (num_mines b)"
    using split mines len by linarith
  with safe_rev le
  have "length (filter (\<lambda>cell. is_revealed (state cell) \<and> ?safe cell) (cells b))
        = length (filter ?safe (cells b))"
    by linarith
  then show ?thesis by (rule filter_conj_full)
qed

lemma check_win_spec:
  assumes inv: "inv_core b" and placed: "mines_placed b" and notover: "\<not> game_over b"
    and pos: "0 \<le> cols b" "0 \<le> rows b"
  shows "check_win b =
           (if revealed_count b = cols b * rows b - num_mines b then b\<lparr>win := True\<rparr> else b)"
    and "board_inv (check_win b)"
proof -
  have sweep: "map (\<lambda>cell. if \<not> is_revealed (state cell) \<and> \<not> is_mine (state cell)
                            then cell\<lparr>state := (state cell)\<lparr>is_revealed := True\<rparr>\<rparr>
                            else cell) (cells b) = cells b"
    if "revealed_count b = cols b * rows b - num_mines b"
  proof (rule map_idI)
    fix cell assume "cell \<in> set (cells b)"
    with win_threshold_all_revealed[OF inv placed pos that]
    have "\<not> is_mine (state cell) \<longrightarrow> is_revealed (state cell)" by blast
    then show "(if \<not> is_revealed (state cell) \<and> \<not> is_mine (state cell)
                            then cell\<lparr>state := (state cell)\<lparr>is_revealed := True\<rparr>\<rparr>
                            else cell) = cell"
      by (cases "is_mine (state cell)") simp_all
  qed
  show eq: "check_win b =
           (if revealed_count b = cols b * rows b - num_mines b then b\<lparr>win := True\<rparr> else b)"
  proof (cases "revealed_count b = cols b * rows b - num_mines b")
    case True
    then show ?thesis using sweep[OF True] notover by (simp add: check_win_def Let_def)
  next
    case False
    then show ?thesis by (simp add: check_win_def Let_def)
  qed
  show "board_inv (check_win b)"
  proof (cases "revealed_count b = cols b * rows b - num_mines b")
    case True
    let ?b = "b\<lparr>win := True\<rparr>"
    have all: "\<forall>cell \<in> set (cells ?b). \<not> is_mine (state cell) \<longrightarrow> is_revealed (state cell)"
      using win_threshold_all_revealed[OF inv placed pos True] by simp
    have "inv_core ?b"
    proof (rule inv_coreI)
      show "wf_board ?b" using inv_coreD(1)[OF inv] by (simp add: wf_board_def)
      show "(\<forall>cell \<in> set (cells ?b). \<not> is_mine (state cell) \<and> \<not> is_revealed (state cell))
          \<and> \<not> game_over ?b \<and> \<not> win ?b" if "\<not> mines_placed ?b"
        using that placed by simp
      show "revealed_count ?b = num_safe_revealed ?b"
        using inv_coreD(3)[OF inv] by (simp add: num_safe_revealed_def)
      show "\<forall>cell \<in> set (cells ?b). is_revealed (state cell) \<longrightarrow> \<not> is_mine (state cell)"
        using inv_coreD(4)[OF inv notover] by simp
      show "\<forall>cell \<in> set (cells ?b). is_flagged (state cell) \<and> is_revealed (state cell) \<longrightarrow> is_mine (state cell)"
        using inv_coreD(5)[OF inv] by simp
      show "\<forall>cell \<in> set (cells ?b). \<not> is_mine (state cell) \<longrightarrow> is_revealed (state cell)"
        by (rule all)
      show "num_mine_cells ?b = max 0 (num_mines ?b)"
        using inv_coreD(7)[OF inv placed] by (simp add: num_mine_cells_def)
    qed
    then show ?thesis using eq True by (simp add: board_inv_def)
  next
    case False
    then show ?thesis using eq inv by (simp add: board_inv_def)
  qed
qed

subsection \<open>The loss path\<close>

lemma reveal_all_mines_clicked:
  assumes "k < length (cells b)" and "is_mine (state (cells b ! k))"
  shows "reveal_all_mines (upd_state (\<lambda>s. s\<lparr>is_revealed := True\<rparr>) k b\<lparr>game_over := True\<rparr>)
       = reveal_all_mines (b\<lparr>game_over := True\<rparr>)"
proof -
  let ?g = "\<lambda>cell. if is_mine (state cell)
                             then cell\<lparr>state := (state cell)\<lparr>is_revealed := True\<rparr>\<rparr>
                             else cell"
  let ?v = "(cells b ! k)\<lparr>state := (state (cells b ! k))\<lparr>is_revealed := True\<rparr>\<rparr>"
  have "map ?g ((cells b)[k := ?v]) = map ?g (cells b)"
    using assms by (simp add: list_eq_iff_nth_eq nth_list_update)
  then show ?thesis
    by (simp add: reveal_all_mines_def upd_state_def)
qed

lemma loss_inv:
  assumes inv: "inv_core b" and placed: "mines_placed b"
  shows "board_inv (reveal_all_mines (b\<lparr>game_over := True\<rparr>))"
proof -
  let ?g = "\<lambda>cell. if is_mine (state cell)
                             then cell\<lparr>state := (state cell)\<lparr>is_revealed := True\<rparr>\<rparr>
                             else cell"
  let ?b = "reveal_all_mines (b\<lparr>game_over := True\<rparr>)"
  have cells': "cells ?b = map ?g (cells b)" by (simp add: reveal_all_mines_def)
  have fields: "cols ?b = cols b" "rows ?b = rows b" "num_mines ?b = num_mines b"
    "mines_placed ?b = mines_placed b" "game_over ?b" "win ?b = win b"
    "revealed_count ?b = revealed_count b"
    by (simp_all add: reveal_all_mines_def)
  have wf: "wf_board ?b" using inv_coreD(1)[OF inv] by (simp add: wf_board_def cells' fields)
  have cnt: "num_safe_revealed ?b = num_safe_revealed b"
  proof -
    have e: "(\<lambda>cell. is_revealed (state cell) \<and> \<not> is_mine (state cell)) \<circ> ?g
        = (\<lambda>cell. is_revealed (state cell) \<and> \<not> is_mine (state cell))"
      by (auto simp: fun_eq_iff)
    show ?thesis
      unfolding num_safe_revealed_def cells' filter_map length_map e ..
  qed
  have mc: "num_mine_cells ?b = num_mine_cells b"
  proof -
    have e: "(\<lambda>cell. is_mine (state cell)) \<circ> ?g = (\<lambda>cell. is_mine (state cell))"
      by (auto simp: fun_eq_iff)
    show ?thesis
      unfolding num_mine_cells_def cells' filter_map length_map e ..
  qed
  have i5: "\<forall>cell \<in> set (cells ?b). is_flagged (state cell) \<and> is_revealed (state cell) \<longrightarrow> is_mine (state cell)"
    unfolding cells' using inv_coreD(5)[OF inv] by auto
  have i6: "\<forall>cell \<in> set (cells ?b). \<not> is_mine (state cell) \<longrightarrow> is_revealed (state cell)"
    if "win b"
    unfolding cells' using inv_coreD(6)[OF inv that] by auto
  have "inv_core ?b"
  proof (rule inv_coreI)
    show "wf_board ?b" by (rule wf)
    show "(\<forall>cell \<in> set (cells ?b). \<not> is_mine (state cell) \<and> \<not> is_revealed (state cell))
          \<and> \<not> game_over ?b \<and> \<not> win ?b" if "\<not> mines_placed ?b"
      using that placed fields(4) by simp
    show "revealed_count ?b = num_safe_revealed ?b"
      using inv_coreD(3)[OF inv] cnt fields(7) by simp
    show "\<forall>cell \<in> set (cells ?b). is_revealed (state cell) \<longrightarrow> \<not> is_mine (state cell)"
      if "\<not> game_over ?b"
      using that fields(5) by simp
    show "\<forall>cell \<in> set (cells ?b). is_flagged (state cell) \<and> is_revealed (state cell) \<longrightarrow> is_mine (state cell)"
      by (rule i5)
    show "\<forall>cell \<in> set (cells ?b). \<not> is_mine (state cell) \<longrightarrow> is_revealed (state cell)"
      if "win ?b"
      using that i6 fields(6) by simp
    show "num_mine_cells ?b = max 0 (num_mines ?b)"
      using inv_coreD(7)[OF inv placed] mc fields(3) by simp
  qed
  then show ?thesis by (simp add: board_inv_def fields(5))
qed

subsection \<open>Flag toggling\<close>

lemma toggle_inv:
  assumes inv: "board_inv b" and k: "k < length (cells b)"
    and hidden: "\<not> is_revealed (state (cells b ! k))"
  shows "board_inv (upd_state (\<lambda>s. s\<lparr>is_flagged := \<not> is_flagged s\<rparr>) k b)"
proof -
  let ?v = "(cells b ! k)\<lparr>state := (state (cells b ! k))\<lparr>is_flagged := \<not> is_flagged (state (cells b ! k))\<rparr>\<rparr>"
  let ?b = "upd_state (\<lambda>s. s\<lparr>is_flagged := \<not> is_flagged s\<rparr>) k b"
  have core: "inv_core b" using inv by (simp add: board_inv_def)
  have old: "cells b ! k \<in> set (cells b)" using k by simp
  have cells': "cells ?b = (cells b)[k := ?v]" by (simp add: upd_state_def)
  have cnt: "num_safe_revealed ?b = num_safe_revealed b"
    unfolding num_safe_revealed_def cells'
    using filter_length_update[OF k, of "\<lambda>cell. is_revealed (state cell) \<and> \<not> is_mine (state cell)" ?v]
    by simp
  have mc: "num_mine_cells ?b = num_mine_cells b"
    unfolding num_mine_cells_def cells'
    using filter_length_update[OF k, of "\<lambda>cell. is_mine (state cell)" ?v] by simp
  have "inv_core ?b"
  proof (rule inv_coreI)
    show "wf_board ?b" using inv_coreD(1)[OF core] by (simp add: wf_board_def)
    show "(\<forall>cell \<in> set (cells ?b). \<not> is_mine (state cell) \<and> \<not> is_revealed (state cell))
          \<and> \<not> game_over ?b \<and> \<not> win ?b" if "\<not> mines_placed ?b"
    proof -
      have np: "\<not> mines_placed b" using that by simp
      have a: "\<forall>cell \<in> set (cells b). \<not> is_mine (state cell) \<and> \<not> is_revealed (state cell)"
        using inv_coreD(2)[OF core np] by blast
      have "\<not> is_mine (state ?v) \<and> \<not> is_revealed (state ?v)" using a old by simp
      with a have "\<forall>cell \<in> set (cells ?b). \<not> is_mine (state cell) \<and> \<not> is_revealed (state cell)"
        unfolding cells' by (rule set_update_all)
      then show ?thesis using inv_coreD(2)[OF core np] by simp
    qed
    show "revealed_count ?b = num_safe_revealed ?b"
      using inv_coreD(3)[OF core] cnt by simp
    show "\<forall>cell \<in> set (cells ?b). is_revealed (state cell) \<longrightarrow> \<not> is_mine (state cell)"
      if "\<not> game_over ?b"
    proof -
      have a: "\<forall>cell \<in> set (cells b). is_revealed (state cell) \<longrightarrow> \<not> is_mine (state cell)"
        using inv_coreD(4)[OF core] that by simp
      have "is_revealed (state ?v) \<longrightarrow> \<not> is_mine (state ?v)" using hidden by simp
      with a show ?thesis unfolding cells' by (rule set_update_all)
    qed
    show "\<forall>cell \<in> set (cells ?b). is_flagged (state cell) \<and> is_revealed (state cell) \<longrightarrow> is_mine (state cell)"
    proof -
      have "is_flagged (state ?v) \<and> is_revealed (state ?v) \<longrightarrow> is_mine (state ?v)"
        using hidden by simp
      with inv_coreD(5)[OF core] show ?thesis unfolding cells' by (rule set_update_all)
    qed
    show "\<forall>cell \<in> set (cells ?b). \<not> is_mine (state cell) \<longrightarrow> is_revealed (state cell)"
      if "win ?b"
    proof -
      have w: "win b" using that by simp
      have a: "\<forall>cell \<in> set (cells b). \<not> is_mine (state cell) \<longrightarrow> is_revealed (state cell)"
        by (rule inv_coreD(6)[OF core w])
      with old hidden have "is_mine (state (cells b ! k))" by blast
      then have "\<not> is_mine (state ?v) \<longrightarrow> is_revealed (state ?v)" by simp
      with a show ?thesis unfolding cells' by (rule set_update_all)
    qed
    show "num_mine_cells ?b = max 0 (num_mines ?b)" if "mines_placed ?b"
      using inv_coreD(7)[OF core] that mc by simp
  qed
  then show ?thesis using inv by (simp add: board_inv_def)
qed

subsection \<open>Placement on a fresh board\<close>

lemma mark_mines_Inr_range:
  assumes "mark_mines b sh is = Inr b1" and "i \<in> set is" and "0 \<le> i"
  shows "i < int (length sh)"
  using assms
proof (induction "is" arbitrary: b)
  case Nil
  then show ?case by simp
next
  case (Cons j rest)
  from Cons.prems(1) obtain c r where get: "py_get sh j = Inr (c, r)"
    by (auto split: sum.splits)
  from Cons.prems(1) get obtain k where k: "cell_pos b c r = Inr k"
    by (auto split: sum.splits)
  have rest: "mark_mines (upd_state (\<lambda>s. s\<lparr>is_mine := True\<rparr>) k b) sh rest = Inr b1"
    using Cons.prems(1) get k by simp
  show ?case
  proof (cases "i = j")
    case True
    from get obtain m where "py_pos (length sh) j = Inr m"
      by (auto simp: py_get_def split: sum.splits)
    then show ?thesis using True Cons.prems(3)
      by (auto simp: py_pos_def split: if_splits)
  next
    case False
    with Cons.prems(2) have "i \<in> set rest" by simp
    from Cons.IH[OF rest this Cons.prems(3)] show ?thesis .
  qed
qed

text \<open>Placement returns only if the pool holds at least \<open>num_mines\<close> positions.\<close>

lemma place_mines_enough:
  assumes sh: "is_shuffle sh" and ok: "place_mines sh b sc sr = Inr b1"
  shows "num_mines b \<le> int (length (pool b sc sr))"
proof (cases "0 < num_mines b")
  case True
  from ok obtain b0 where m: "mark_mines b (sh (pool b sc sr)) (py_range (num_mines b)) = Inr b0"
    by (auto simp: place_mines_def split: sum.splits)
  have "num_mines b - 1 \<in> set (py_range (num_mines b))"
    using True by (simp add: set_py_range)
  from mark_mines_Inr_range[OF m this] True
  have "num_mines b - 1 < int (length (sh (pool b sc sr)))" by simp
  then show ?thesis using shuffle_facts(2)[OF sh, of "pool b sc sr"] by simp
next
  case False
  then show ?thesis by simp
qed

lemma pool_smaller:
  assumes "is_inbounds b sc sr"
  shows "int (length (pool b sc sr)) < cols b * rows b"
proof -
  have mem: "(sc, sr) \<in> set (all_positions b)" using assms by (simp add: set_all_positions)
  have forb: "\<not> (sc, sr) \<notin> forbidden b sc sr" by (simp add: forbidden_def)
  have less: "length (pool b sc sr) < length (all_positions b)"
    unfolding pool_def using mem forb by (rule length_filter_less)
  have pos: "0 \<le> cols b" "0 \<le> rows b" using assms by (auto simp: is_inbounds_def)
  have "int (length (all_positions b)) = int (nat (cols b) * nat (rows b))"
    by (simp only: length_all_positions)
  also have "\<dots> = cols b * rows b" using pos by (rule nat_mult_int)
  finally show ?thesis using less by linarith
qed

lemma all_cells_nth:
  "(\<forall>cell \<in> set (cells b). P (state cell)) \<longleftrightarrow> (\<forall>j < length (cells b). P (state (cells b ! j)))"
  by (simp add: all_set_conv_all_nth)

lemma no_match_count: "\<forall>x \<in> set xs. \<not> P x \<Longrightarrow> int (length (filter P xs)) = 0"
  by (simp add: filter_False)

lemma place_mines_fresh:
  assumes inv: "board_inv b" and fresh: "\<not> mines_placed b" and sh: "is_shuffle sh"
    and inb: "is_inbounds b sc sr"
    and enough: "num_mines b \<le> int (length (pool b sc sr))"
  shows "\<exists>b1. place_mines sh b sc sr = Inr b1 \<and> board_inv b1 \<and> mines_placed b1 \<and> keeps_play b b1
           \<and> (\<forall>c r. is_inbounds b c r \<longrightarrow>
                 (is_mine (state (cells b1 ! nat (index b c r)))
                  \<longleftrightarrow> (c, r) \<in> set (take (nat (num_mines b)) (sh (pool b sc sr)))))"
proof -
  let ?sp = "sh (pool b sc sr)"
  let ?n = "nat (num_mines b)"
  let ?ch = "take ?n ?sp"
  let ?f = "\<lambda>p. nat (index b (fst p) (snd p))"
  have core: "inv_core b" using inv by (simp add: board_inv_def)
  have wf: "wf_board b" by (rule inv_coreD(1)[OF core])
  have clean: "\<forall>cell \<in> set (cells b). \<not> is_mine (state cell) \<and> \<not> is_revealed (state cell)"
    and start: "\<not> game_over b" "\<not> win b"
    using inv_coreD(2)[OF core fresh] by blast+
  have clean_m: "\<forall>cell \<in> set (cells b). \<not> is_mine (state cell)" using clean by blast
  from place_mines_spec[OF wf sh enough clean_m]
  obtain b1 where b1: "place_mines sh b sc sr = Inr b1" "keeps_play b b1" "mines_placed b1"
    and at_pos: "\<forall>c r. is_inbounds b c r \<longrightarrow>
                 (is_mine (state (cells b1 ! nat (index b c r))) \<longleftrightarrow> (c, r) \<in> set ?ch)"
    and origin: "\<forall>j < length (cells b). is_mine (state (cells b1 ! j)) \<longrightarrow>
                 (\<exists>c r. (c, r) \<in> set ?ch \<and> j = nat (index b c r))"
    by blast
  have len: "length (cells b1) = length (cells b)" using b1(2) by (rule keeps_play_length)
  have fields: "cols b1 = cols b" "rows b1 = rows b" "num_mines b1 = num_mines b"
    "revealed_count b1 = revealed_count b" "game_over b1 = game_over b" "win b1 = win b"
    using b1(2) by (simp_all add: keeps_play_def)
  have wf1: "wf_board b1" using wf keeps_play_wf[OF b1(2)] by simp
  have hidden1: "\<forall>cell \<in> set (cells b1). \<not> is_revealed (state cell)"
  proof -
    have "\<forall>j < length (cells b). \<not> is_revealed (state (cells b ! j))"
      using clean by (simp add: all_set_conv_all_nth)
    then have "\<forall>j < length (cells b1). \<not> is_revealed (state (cells b1 ! j))"
      using keeps_play_nth(1)[OF b1(2)] len by simp
    then show ?thesis by (simp add: all_set_conv_all_nth)
  qed
  have zero: "num_safe_revealed b = 0" "num_safe_revealed b1 = 0"
    unfolding num_safe_revealed_def using clean hidden1 by (simp_all add: filter_False)
  have rc: "revealed_count b1 = 0"
    using inv_coreD(3)[OF core] zero(1) fields(4) by simp
  \<comment> \<open>the chosen positions\<close>
  have sp_set: "set ?sp = {(c, r). is_inbounds b c r} - forbidden b sc sr"
    using shuffle_facts(1)[OF sh] pool_facts(2) by simp
  have sp_dist: "distinct ?sp" using shuffle_facts(3)[OF sh] pool_facts(1) by simp
  have sp_len: "length ?sp = length (pool b sc sr)" using shuffle_facts(2)[OF sh] by simp
  have ch_inb: "is_inbounds b (fst p) (snd p)" if "p \<in> set ?ch" for p
  proof -
    from that have "p \<in> set ?sp" by (rule in_set_takeD)
    then show ?thesis using sp_set by auto
  qed
  have inj: "inj_on ?f (set ?ch)"
  proof (rule inj_onI)
    fix p q assume p: "p \<in> set ?ch" and q: "q \<in> set ?ch" and e: "?f p = ?f q"
    have "0 \<le> index b (fst p) (snd p)" "0 \<le> index b (fst q) (snd q)"
      using index_bounds(1) ch_inb p q by simp_all
    with e have "index b (fst p) (snd p) = index b (fst q) (snd q)" by simp
    from index_inj[OF ch_inb[OF p] ch_inb[OF q] this] show "p = q"
      by (simp add: prod_eq_iff)
  qed
  have mines_set: "{j. j < length (cells b1) \<and> is_mine (state (cells b1 ! j))} = ?f ` set ?ch"
  proof (intro set_eqI iffI)
    fix j assume "j \<in> {j. j < length (cells b1) \<and> is_mine (state (cells b1 ! j))}"
    then have "j < length (cells b)" "is_mine (state (cells b1 ! j))" using len by simp_all
    with origin obtain c r where "(c, r) \<in> set ?ch" "j = nat (index b c r)" by blast
    then show "j \<in> ?f ` set ?ch" by force
  next
    fix j assume "j \<in> ?f ` set ?ch"
    then obtain p where p: "p \<in> set ?ch" "j = ?f p" by blast
    obtain c r where cr: "p = (c, r)" by (cases p)
    have i: "is_inbounds b c r" using ch_inb[OF p(1)] cr by simp
    have "is_mine (state (cells b1 ! nat (index b c r)))" using at_pos i p(1) cr by blast
    moreover have "nat (index b c r) < length (cells b1)"
      using index_less_length[OF wf i] len by simp
    ultimately show "j \<in> {j. j < length (cells b1) \<and> is_mine (state (cells b1 ! j))}"
      using p(2) cr by simp
  qed
  have count: "num_mine_cells b1 = max 0 (num_mines b1)"
  proof -
    have "length (filter (\<lambda>cell. is_mine (state cell)) (cells b1))
        = card {j. j < length (cells b1) \<and> is_mine (state (cells b1 ! j))}"
      by (rule length_filter_conv_card)
    also have "\<dots> = card (?f ` set ?ch)" by (simp only: mines_set)
    also have "\<dots> = card (set ?ch)" using inj by (rule card_image)
    also have "\<dots> = length ?ch" using sp_dist by (intro distinct_card distinct_take)
    also have "\<dots> = ?n" using enough sp_len by simp
    finally show ?thesis by (simp add: num_mine_cells_def fields)
  qed
  have core1: "inv_core b1"
  proof (rule inv_coreI)
    show "wf_board b1" by (rule wf1)
    show "(\<forall>cell \<in> set (cells b1). \<not> is_mine (state cell) \<and> \<not> is_revealed (state cell))
          \<and> \<not> game_over b1 \<and> \<not> win b1" if "\<not> mines_placed b1"
      using that b1(3) by simp
    show "revealed_count b1 = num_safe_revealed b1" using rc zero(2) by simp
    show "\<forall>cell \<in> set (cells b1). is_revealed (state cell) \<longrightarrow> \<not> is_mine (state cell)"
      using hidden1 by blast
    show "\<forall>cell \<in> set (cells b1). is_flagged (state cell) \<and> is_revealed (state cell) \<longrightarrow> is_mine (state cell)"
      using hidden1 by blast
    show "\<forall>cell \<in> set (cells b1). \<not> is_mine (state cell) \<longrightarrow> is_revealed (state cell)"
      if "win b1"
      using that start(2) fields(6) by simp
    show "num_mine_cells b1 = max 0 (num_mines b1)" by (rule count)
  qed
  have "revealed_count b1 \<noteq> cols b1 * rows b1 - num_mines b1"
    using pool_smaller[OF inb] enough rc fields by simp
  with core1 have "board_inv b1" by (simp add: board_inv_def)
  with b1 at_pos show ?thesis by blast
qed

lemma Board_init_inv:
  assumes "Board_init cs rs mines = Inr b"
  shows "board_inv b" and "\<not> mines_placed b"
proof -
  have b: "b = \<lparr>cols = cs, rows = rs, num_mines = mines,
          cells = concat (map (\<lambda>r. map (\<lambda>c. Cell_init c r) (py_range cs)) (py_range rs)),
          mines_placed = False, revealed_count = 0, game_over = False, win = False\<rparr>"
    using assms by (simp add: Board_init_def)
  show fresh: "\<not> mines_placed b" by (simp add: b)
  have clean: "\<forall>cell \<in> set (cells b). \<not> is_mine (state cell) \<and> \<not> is_revealed (state cell)"
    by (auto simp: b Cell_init_def CellState_init_def)
  have "inv_core b"
  proof (rule inv_coreI)
    show "wf_board b"
      by (simp add: wf_board_def b length_concat o_def length_py_range sum_list_triv)
    show "(\<forall>cell \<in> set (cells b). \<not> is_mine (state cell) \<and> \<not> is_revealed (state cell))
          \<and> \<not> game_over b \<and> \<not> win b"
      using clean by (simp add: b)
    have "num_safe_revealed b = 0"
      unfolding num_safe_revealed_def using clean by (simp add: filter_False)
    then show "revealed_count b = num_safe_revealed b" by (simp add: b)
    show "\<forall>cell \<in> set (cells b). is_revealed (state cell) \<longrightarrow> \<not> is_mine (state cell)"
      using clean by blast
    show "\<forall>cell \<in> set (cells b). is_flagged (state cell) \<and> is_revealed (state cell) \<longrightarrow> is_mine (state cell)"
      using clean by blast
    show "\<forall>cell \<in> set (cells b). \<not> is_mine (state cell) \<longrightarrow> is_revealed (state cell)" if "win b"
      using that by (simp add: b)
    show "num_mine_cells b = max 0 (num_mines b)" if "mines_placed b"
      using that fresh by simp
  qed
  then show "board_inv b" using fresh by (simp add: board_inv_def)
qed

lemma reveal_unfold:
  "reveal shuffle b c r =
     (if \<not> is_inbounds b c r \<or> game_over b then Inr b
      else
        (case cell_pos b c r of
           Inl e \<Rightarrow> Inl e
         | Inr k \<Rightarrow>
             if is_revealed (state (cells b ! k)) then Inr b
             else
               (case (if \<not> mines_placed b then place_mines shuffle b c r else Inr b) of
                  Inl e \<Rightarrow> Inl e
                | Inr b1 \<Rightarrow> reveal_cell b1 c r k)))"
  unfolding reveal_def reveal_cell_def ..

lemma same_settings_mines: "same_settings b b' \<Longrightarrow> same_mines b b'"
  by (simp add: same_settings_def same_mines_def)

lemma same_mines_refl: "same_mines b b"
  by (simp add: same_mines_def)

lemma same_mines_trans: "same_mines a b \<Longrightarrow> same_mines b c \<Longrightarrow> same_mines a c"
  by (simp add: same_mines_def)

lemma same_mines_win: "same_mines b (b\<lparr>win := True\<rparr>)"
  by (simp add: same_mines_def)

lemma same_mines_loss: "same_mines b (reveal_all_mines (b\<lparr>game_over := True\<rparr>))"
  by (simp add: same_mines_def reveal_all_mines_def list_eq_iff_nth_eq)

lemma reveal_cell_spec:
  assumes inv: "board_inv b1" and placed: "mines_placed b1" and notover: "\<not> game_over b1"
    and inb: "is_inbounds b1 c r"
  shows "\<exists>b'. reveal_cell b1 c r (nat (index b1 c r)) = Inr b' \<and> board_inv b' \<and> same_mines b1 b'
           \<and> (is_flagged (state (cells b1 ! nat (index b1 c r))) \<longrightarrow> b' = b1)
           \<and> (\<not> is_flagged (state (cells b1 ! nat (index b1 c r)))
                \<and> is_mine (state (cells b1 ! nat (index b1 c r)))
                \<longrightarrow> b' = reveal_all_mines (b1\<lparr>game_over := True\<rparr>))
           \<and> (\<not> is_flagged (state (cells b1 ! nat (index b1 c r)))
                \<and> \<not> is_mine (state (cells b1 ! nat (index b1 c r)))
                \<longrightarrow> (\<exists>b2. flood b1 [(c, r)] = Inr b2 \<and> inv_core b2 \<and> same_settings b1 b2
                          \<and> b' = check_win b2))"
proof -
  let ?k = "nat (index b1 c r)"
  have core: "inv_core b1" using inv by (simp add: board_inv_def)
  have wf: "wf_board b1" by (rule inv_coreD(1)[OF core])
  have k: "?k < length (cells b1)" by (rule index_less_length[OF wf inb])
  show ?thesis
  proof (cases "is_flagged (state (cells b1 ! ?k))")
    case True
    then show ?thesis using inv by (simp add: reveal_cell_def same_mines_refl)
  next
    case unflagged: False
    show ?thesis
    proof (cases "is_mine (state (cells b1 ! ?k))")
      case True
      have "reveal_cell b1 c r ?k = Inr (reveal_all_mines (b1\<lparr>game_over := True\<rparr>))"
        using unflagged True reveal_all_mines_clicked[OF k True] by (simp add: reveal_cell_def)
      then show ?thesis
        using loss_inv[OF core placed] same_mines_loss unflagged True by simp
    next
      case safe: False
      have "\<forall>p \<in> set [(c, r)]. is_inbounds b1 (fst p) (snd p)
               \<and> \<not> is_mine (state (cells b1 ! nat (index b1 (fst p) (snd p))))"
        using inb safe by simp
      from flood_spec[OF core placed this]
      obtain b2 where b2: "flood b1 [(c, r)] = Inr b2" "inv_core b2" "same_settings b1 b2"
        by blast
      have f2: "mines_placed b2" "\<not> game_over b2" "0 \<le> cols b2" "0 \<le> rows b2"
        using b2(3) placed notover inb by (simp_all add: same_settings_def is_inbounds_def)
      have eq: "check_win b2 =
           (if revealed_count b2 = cols b2 * rows b2 - num_mines b2 then b2\<lparr>win := True\<rparr> else b2)"
        and inv': "board_inv (check_win b2)"
        using check_win_spec[OF b2(2) f2] by blast+
      have "same_mines b2 (check_win b2)"
        unfolding eq using same_mines_win same_mines_refl by simp
      then have sm: "same_mines b1 (check_win b2)"
        using same_mines_trans[OF same_settings_mines[OF b2(3)]] by blast
      have "reveal_cell b1 c r ?k = Inr (check_win b2)"
        using unflagged safe b2(1) by (simp add: reveal_cell_def)
      then show ?thesis
        using inv' sm b2 unflagged safe by simp
    qed
  qed
qed

lemma keeps_play_same_mines_fresh:
  assumes "keeps_play b b1"
  shows "cols b1 = cols b" "rows b1 = rows b" "num_mines b1 = num_mines b"
    "game_over b1 = game_over b" "win b1 = win b" "revealed_count b1 = revealed_count b"
  using assms by (simp_all add: keeps_play_def)

text \<open>\<open>reveal\<close> on a board a caller can hold: it returns, and the invariant holds again.\<close>

lemma reveal_placed:
  assumes inv: "board_inv b" and placed: "mines_placed b"
  shows "\<exists>b'. reveal sh b c r = Inr b' \<and> board_inv b' \<and> same_mines b b'"
proof (cases "\<not> is_inbounds b c r \<or> game_over b")
  case True
  then show ?thesis using inv by (auto simp: reveal_unfold same_mines_refl)
next
  case False
  then have inb: "is_inbounds b c r" and notover: "\<not> game_over b" by simp_all
  have wf: "wf_board b" using inv by (simp add: board_inv_def inv_coreD(1))
  have pos: "cell_pos b c r = Inr (nat (index b c r))" by (rule cell_pos_inbounds[OF wf inb])
  show ?thesis
  proof (cases "is_revealed (state (cells b ! nat (index b c r)))")
    case True
    then show ?thesis using inv inb notover pos by (simp add: reveal_unfold same_mines_refl)
  next
    case False
    from reveal_cell_spec[OF inv placed notover inb]
    obtain b' where "reveal_cell b c r (nat (index b c r)) = Inr b'" "board_inv b'" "same_mines b b'"
      by blast
    then show ?thesis using inb notover pos False placed by (simp add: reveal_unfold)
  qed
qed

lemma reveal_fresh:
  assumes inv: "board_inv b" and fresh: "\<not> mines_placed b" and sh: "is_shuffle sh"
    and inb: "is_inbounds b c r"
    and enough: "num_mines b \<le> int (length (pool b c r))"
  shows "\<exists>b1 b'. place_mines sh b c r = Inr b1 \<and> board_inv b1 \<and> mines_placed b1 \<and> keeps_play b b1
           \<and> (\<forall>nc nr. is_inbounds b nc nr \<longrightarrow>
                 (is_mine (state (cells b1 ! nat (index b nc nr)))
                  \<longleftrightarrow> (nc, nr) \<in> set (take (nat (num_mines b)) (sh (pool b c r)))))
           \<and> reveal sh b c r = Inr b' \<and> board_inv b' \<and> same_mines b1 b'
           \<and> (is_flagged (state (cells b ! nat (index b c r))) \<longrightarrow> b' = b1)"
proof -
  have core: "inv_core b" using inv by (simp add: board_inv_def)
  have wf: "wf_board b" by (rule inv_coreD(1)[OF core])
  have start: "\<forall>cell \<in> set (cells b). \<not> is_mine (state cell) \<and> \<not> is_revealed (state cell)"
     "\<not> game_over b"
    using inv_coreD(2)[OF core fresh] by blast+
  let ?k = "nat (index b c r)"
  have k: "?k < length (cells b)" by (rule index_less_length[OF wf inb])
  have pos: "cell_pos b c r = Inr ?k" by (rule cell_pos_inbounds[OF wf inb])
  have hidden: "\<not> is_revealed (state (cells b ! ?k))" using start(1) k by simp
  from place_mines_fresh[OF inv fresh sh inb enough]
  obtain b1 where b1: "place_mines sh b c r = Inr b1" "board_inv b1" "mines_placed b1"
      "keeps_play b b1"
    and at: "\<forall>nc nr. is_inbounds b nc nr \<longrightarrow>
                 (is_mine (state (cells b1 ! nat (index b nc nr)))
                  \<longleftrightarrow> (nc, nr) \<in> set (take (nat (num_mines b)) (sh (pool b c r))))"
    by blast
  have g: "index b1 = index b" "is_inbounds b1 = is_inbounds b"
    using keeps_play_grid[OF b1(4)] by simp_all
  have notover1: "\<not> game_over b1" using start(2) keeps_play_same_mines_fresh(4)[OF b1(4)] by simp
  have inb1: "is_inbounds b1 c r" using inb g by simp
  from reveal_cell_spec[OF b1(2,3) notover1 inb1]
  obtain b' where b': "reveal_cell b1 c r ?k = Inr b'" "board_inv b'" "same_mines b1 b'"
     "is_flagged (state (cells b1 ! ?k)) \<longrightarrow> b' = b1"
    unfolding g by blast
  have "is_flagged (state (cells b1 ! ?k)) = is_flagged (state (cells b ! ?k))"
    by (rule keeps_play_nth(2)[OF b1(4) k])
  with b'(4) have fl: "is_flagged (state (cells b ! ?k)) \<longrightarrow> b' = b1" by simp
  have "reveal sh b c r = Inr b'"
    using inb start(2) pos hidden fresh b1(1) b'(1) by (simp add: reveal_unfold)
  with b1 at b'(2,3) fl show ?thesis by blast
qed

lemma reveal_inv:
  assumes inv: "board_inv b" and sh: "is_shuffle sh" and ok: "reveal sh b c r = Inr b'"
  shows "board_inv b'"
proof (cases "mines_placed b")
  case True
  from reveal_placed[OF inv True, of sh c r] ok show ?thesis by auto
next
  case fresh: False
  show ?thesis
  proof (cases "\<not> is_inbounds b c r \<or> game_over b")
    case True
    then show ?thesis using inv ok by (auto simp: reveal_unfold)
  next
    case False
    then have inb: "is_inbounds b c r" and notover: "\<not> game_over b" by simp_all
    have core: "inv_core b" using inv by (simp add: board_inv_def)
    have wf: "wf_board b" by (rule inv_coreD(1)[OF core])
    have pos: "cell_pos b c r = Inr (nat (index b c r))" by (rule cell_pos_inbounds[OF wf inb])
    have "\<forall>cell \<in> set (cells b). \<not> is_mine (state cell) \<and> \<not> is_revealed (state cell)"
      using inv_coreD(2)[OF core fresh] by blast
    then have hidden: "\<not> is_revealed (state (cells b ! nat (index b c r)))"
      using index_less_length[OF wf inb] by simp
    from ok obtain b1 where "place_mines sh b c r = Inr b1"
      using inb notover pos hidden fresh by (auto simp: reveal_unfold split: sum.splits)
    from place_mines_enough[OF sh this]
    have enough: "num_mines b \<le> int (length (pool b c r))" .
    from reveal_fresh[OF inv fresh sh inb enough] ok show ?thesis by auto
  qed
qed

lemma toggle_flag_spec:
  assumes inv: "board_inv b"
  shows "\<exists>b'. toggle_flag b c r = Inr b' \<and> board_inv b'"
proof (cases "is_inbounds b c r")
  case False
  then show ?thesis using inv by (simp add: toggle_flag_def)
next
  case True
  have wf: "wf_board b" using inv by (simp add: board_inv_def inv_coreD(1))
  have pos: "cell_pos b c r = Inr (nat (index b c r))" by (rule cell_pos_inbounds[OF wf True])
  have k: "nat (index b c r) < length (cells b)" by (rule index_less_length[OF wf True])
  show ?thesis
  proof (cases "is_revealed (state (cells b ! nat (index b c r)))")
    case True
    then show ?thesis using inv pos \<open>is_inbounds b c r\<close> by (simp add: toggle_flag_def)
  next
    case False
    from toggle_inv[OF inv k False] show ?thesis
      using pos \<open>is_inbounds b c r\<close> False by (simp add: toggle_flag_def)
  qed
qed

lemma reachable_inv: "reachable b \<Longrightarrow> board_inv b"
proof (induction rule: reachable.induct)
  case (init cs rs mines b)
  then show ?case by (rule Board_init_inv(1))
next
  case (after_reveal b shuffle c r b')
  then show ?case using reveal_inv by blast
next
  case (after_toggle_flag b c r b')
  then show ?case using toggle_flag_spec[of b c r] by auto
qed

subsection \<open>Concrete rounds\<close>

lemma is_shuffle_id: "is_shuffle id"
  by (simp add: is_shuffle_def)

lemma round_4x1:
  "Board_init 4 1 1 = Inr fresh_4x1"
  "reveal id fresh_4x1 0 0 = Inr opened_4x1"
  "reveal id opened_4x1 2 0 = Inr lost_4x1"
  "reveal id opened_4x1 3 0 = Inr won_4x1"
  "reveal id won_4x1 2 0 = Inr won_then_lost_4x1"
  "toggle_flag fresh_4x1 0 0 = Inr flagged_4x1"
  "reveal id flagged_4x1 0 0 = Inr flagged_placed_4x1"
  by code_simp+

lemma round_5x1:
  "Board_init 5 1 2 = Inr fresh_5x1"
  "reveal id fresh_5x1 0 0 = Inr opened_5x1"
  "toggle_flag opened_5x1 2 0 = Inr flagged_5x1"
  "reveal id flagged_5x1 3 0 = Inr lost_5x1"
  by code_simp+

lemma reachable_4x1:
  "reachable fresh_4x1" "reachable opened_4x1" "reachable lost_4x1" "reachable won_4x1"
  "reachable won_then_lost_4x1" "reachable flagged_4x1" "reachable flagged_placed_4x1"
proof -
  show f: "reachable fresh_4x1" using round_4x1(1) by (rule reachable.init)
  show op: "reachable opened_4x1" using f is_shuffle_id round_4x1(2) by (rule reachable.after_reveal)
  show "reachable lost_4x1" using op is_shuffle_id round_4x1(3) by (rule reachable.after_reveal)
  show w: "reachable won_4x1" using op is_shuffle_id round_4x1(4) by (rule reachable.after_reveal)
  show "reachable won_then_lost_4x1" using w is_shuffle_id round_4x1(5) by (rule reachable.after_reveal)
  show fl: "reachable flagged_4x1" using f round_4x1(6) by (rule reachable.after_toggle_flag)
  show "reachable flagged_placed_4x1" using fl is_shuffle_id round_4x1(7) by (rule reachable.after_reveal)
qed

lemma reachable_5x1:
  "reachable fresh_5x1" "reachable opened_5x1" "reachable flagged_5x1" "reachable lost_5x1"
proof -
  show f: "reachable fresh_5x1" using round_5x1(1) by (rule reachable.init)
  show op: "reachable opened_5x1" using f is_shuffle_id round_5x1(2) by (rule reachable.after_reveal)
  show fl: "reachable flagged_5x1" using op round_5x1(3) by (rule reachable.after_toggle_flag)
  show "reachable lost_5x1" using fl is_shuffle_id round_5x1(4) by (rule reachable.after_reveal)
qed

lemma round_2x1:
  "Board_init 2 1 5 = Inr fresh_2x1"
  "toggle_flag fresh_2x1 0 0 = Inr flagged_2x1"
  "reveal id flagged_2x1 0 0 = Inl IndexError"
  by code_simp+

lemma reachable_2x1:
  "reachable fresh_2x1" "reachable flagged_2x1"
proof -
  show f: "reachable fresh_2x1" using round_2x1(1) by (rule reachable.init)
  show "reachable flagged_2x1" using f round_2x1(2) by (rule reachable.after_toggle_flag)
qed

subsection \<open>What a reveal call does on a board a caller can hold\<close>

lemma reveal_go:
  assumes inv: "board_inv b" and sh: "is_shuffle sh" and ok: "reveal sh b c r = Inr b'"
    and inb: "is_inbounds b c r" and notover: "\<not> game_over b"
    and hidden: "\<not> is_revealed (state (cells b ! nat (index b c r)))"
  shows "\<exists>b1. (if mines_placed b then b1 = b else place_mines sh b c r = Inr b1)
           \<and> keeps_play b b1 \<and> board_inv b1 \<and> mines_placed b1 \<and> \<not> game_over b1
           \<and> is_inbounds b1 c r \<and> index b1 c r = index b c r
           \<and> reveal_cell b1 c r (nat (index b c r)) = Inr b'"
proof -
  have wf: "wf_board b" using inv by (simp add: board_inv_def inv_coreD(1))
  have pos: "cell_pos b c r = Inr (nat (index b c r))" by (rule cell_pos_inbounds[OF wf inb])
  show ?thesis
  proof (cases "mines_placed b")
    case True
    have "reveal_cell b c r (nat (index b c r)) = Inr b'"
      using ok inb notover pos hidden True by (simp add: reveal_unfold)
    then show ?thesis using True inv notover inb by (simp add: keeps_play_refl)
  next
    case fresh: False
    from ok obtain b1 where p: "place_mines sh b c r = Inr b1"
      and rc: "reveal_cell b1 c r (nat (index b c r)) = Inr b'"
      using inb notover pos hidden fresh by (auto simp: reveal_unfold split: sum.splits)
    from place_mines_enough[OF sh p]
    have enough: "num_mines b \<le> int (length (pool b c r))" .
    from place_mines_fresh[OF inv fresh sh inb enough] p
    have b1: "board_inv b1" "mines_placed b1" "keeps_play b b1" by auto
    have "\<not> game_over b1" using notover b1(3) by (simp add: keeps_play_def)
    moreover have "is_inbounds b1 c r" "index b1 c r = index b c r"
      using inb keeps_play_grid(1,2)[OF b1(3)] by simp_all
    ultimately show ?thesis using fresh p rc b1 by simp
  qed
qed



text \<open>How the two terminal flags move in one reveal call.\<close>

lemma reveal_cell_flags:
  assumes inv: "board_inv b1" and placed: "mines_placed b1" and notover: "\<not> game_over b1"
    and inb: "is_inbounds b1 c r" and ok: "reveal_cell b1 c r (nat (index b1 c r)) = Inr b'"
  shows "(game_over b' \<longrightarrow> win b' = win b1) \<and> (win b1 \<longrightarrow> win b') \<and> mines_placed b'"
proof -
  let ?k = "nat (index b1 c r)"
  from reveal_cell_spec[OF inv placed notover inb] ok
  have sm: "same_mines b1 b'"
    and fl: "is_flagged (state (cells b1 ! ?k)) \<longrightarrow> b' = b1"
    and lo: "\<not> is_flagged (state (cells b1 ! ?k)) \<and> is_mine (state (cells b1 ! ?k))
                \<longrightarrow> b' = reveal_all_mines (b1\<lparr>game_over := True\<rparr>)"
    and go: "\<not> is_flagged (state (cells b1 ! ?k)) \<and> \<not> is_mine (state (cells b1 ! ?k))
                \<longrightarrow> (\<exists>b2. flood b1 [(c, r)] = Inr b2 \<and> inv_core b2 \<and> same_settings b1 b2
                          \<and> b' = check_win b2)"
    by auto
  have mp: "mines_placed b'" using sm placed by (simp add: same_mines_def)
  consider (flagged) "is_flagged (state (cells b1 ! ?k))"
    | (mine) "\<not> is_flagged (state (cells b1 ! ?k))" "is_mine (state (cells b1 ! ?k))"
    | (safe) "\<not> is_flagged (state (cells b1 ! ?k))" "\<not> is_mine (state (cells b1 ! ?k))"
    by blast
  then show ?thesis
  proof cases
    case flagged
    then show ?thesis using fl mp by simp
  next
    case mine
    then have "b' = reveal_all_mines (b1\<lparr>game_over := True\<rparr>)" using lo by simp
    then show ?thesis using mp by (simp add: reveal_all_mines_def)
  next
    case safe
    then obtain b2 where b2: "same_settings b1 b2" "b' = check_win b2" using go by blast
    have "\<not> game_over b2" "win b2 = win b1" using b2(1) notover by (simp_all add: same_settings_def)
    then have "\<not> game_over b'" "win b1 \<longrightarrow> win b'"
      unfolding b2(2) by (simp_all add: check_win_def Let_def)
    then show ?thesis using mp by simp
  qed
qed


lemma get_state_reachable:
  assumes "board_inv b" and "is_inbounds b c r"
  shows "get_state b c r = Inr (state (cells b ! nat (index b c r)))"
    and "nat (index b c r) < length (cells b)"
proof -
  have wf: "wf_board b" using assms(1) by (simp add: board_inv_def inv_coreD(1))
  show "get_state b c r = Inr (state (cells b ! nat (index b c r)))"
    by (rule get_state_inbounds[OF wf assms(2)])
  show "nat (index b c r) < length (cells b)" by (rule index_less_length[OF wf assms(2)])
qed

section \<open>The revealed count\<close>

text \<open>
  C3, as stated, fails. On \<open>Board(4, 1, 1)\<close>, \<open>reveal(0, 0)\<close> opens two cells and
  \<open>reveal(2, 0)\<close> then hits the mine: the loss path marks the mine revealed and does
  not touch \<open>revealed_count\<close>, which stays 2 while three cells are revealed.
\<close>

theorem revealed_count_after_loss_counterexample:
  "reachable lost_4x1 \<and> reveal id opened_4x1 2 0 = Inr lost_4x1
   \<and> revealed_count lost_4x1 = 2 \<and> num_revealed lost_4x1 = 3"
  using reachable_4x1(3) round_4x1(3)
  by (simp add: lost_4x1_def num_revealed_def cell_of_def)

text \<open>
  C3, amended. After every operation \<open>revealed_count\<close> is the number of revealed cells
  that are not mines; while \<open>game_over\<close> is false no mine is revealed, so it is then the
  number of all revealed cells.
\<close>

theorem revealed_count_counts_safe_cells:
  assumes "reachable b"
  shows "revealed_count b = num_safe_revealed b
       \<and> (\<not> game_over b \<longrightarrow> revealed_count b = num_revealed b)"
proof -
  have core: "inv_core b" using reachable_inv[OF assms] by (simp add: board_inv_def)
  have a: "revealed_count b = num_safe_revealed b" by (rule inv_coreD(3)[OF core])
  have "num_safe_revealed b = num_revealed b" if "\<not> game_over b"
  proof -
    have "filter (\<lambda>cell. is_revealed (state cell) \<and> \<not> is_mine (state cell)) (cells b)
        = filter (\<lambda>cell. is_revealed (state cell)) (cells b)"
      using inv_coreD(4)[OF core that] by (intro filter_cong) auto
    then show ?thesis by (simp add: num_safe_revealed_def num_revealed_def)
  qed
  with a show ?thesis by simp
qed

theorem revealed_count_counts_safe_cells_witness:
  "reachable opened_4x1 \<and> \<not> game_over opened_4x1
   \<and> revealed_count opened_4x1 = num_safe_revealed opened_4x1
   \<and> revealed_count opened_4x1 = num_revealed opened_4x1"
  using revealed_count_counts_safe_cells [OF reachable_4x1(2)] reachable_4x1(2)
  by (simp add: opened_4x1_def)

section \<open>Flags and revealed cells\<close>

text \<open>
  C4, as stated, fails. On \<open>Board(5, 1, 2)\<close> the mines are at \<open>(2, 0)\<close> and \<open>(3, 0)\<close>;
  the player flags \<open>(2, 0)\<close> and then reveals \<open>(3, 0)\<close>. \<open>_reveal_all_mines\<close> reveals every
  mine and clears no flag: the cell at \<open>(2, 0)\<close> ends up flagged and revealed.
\<close>

theorem flagged_mine_revealed_counterexample:
  "reachable lost_5x1 \<and> reveal id flagged_5x1 3 0 = Inr lost_5x1
   \<and> is_flagged (state (cells lost_5x1 ! 2)) \<and> is_revealed (state (cells lost_5x1 ! 2))"
  using reachable_5x1(4) round_5x1(4)
  by (simp add: lost_5x1_def cell_of_def)

text \<open>
  C4, amended. In every reachable board state a cell that is both flagged and revealed
  is a mine on a lost board (\<open>game_over\<close> true): only the loss path reveals flagged
  cells, and it reveals mines only. A direct click, the cascade and the win sweep never
  leave a cell both flagged and revealed, and \<open>toggle_flag\<close> on a revealed cell changes
  nothing.
\<close>

theorem flagged_revealed_only_lost_mines:
  assumes "reachable b"
  shows "(\<forall>cell \<in> set (cells b).
            is_flagged (state cell) \<and> is_revealed (state cell) \<longrightarrow> is_mine (state cell) \<and> game_over b)
       \<and> (\<forall>s. get_state b c r = Inr s \<and> is_revealed s \<longrightarrow> toggle_flag b c r = Inr b)"
proof -
  have core: "inv_core b" using reachable_inv[OF assms] by (simp add: board_inv_def)
  have a: "is_mine (state cell) \<and> game_over b"
    if "cell \<in> set (cells b)" "is_flagged (state cell)" "is_revealed (state cell)" for cell
  proof -
    have m: "is_mine (state cell)" using inv_coreD(5)[OF core] that by blast
    have "game_over b"
    proof (rule ccontr)
      assume "\<not> game_over b"
      from inv_coreD(4)[OF core this] that m show False by blast
    qed
    with m show ?thesis by simp
  qed
  have b: "toggle_flag b c r = Inr b" if "get_state b c r = Inr s" "is_revealed s" for s
    using that by (auto simp: toggle_flag_def get_state_def split: sum.splits)
  from a b show ?thesis by blast
qed

theorem flagged_revealed_only_lost_mines_witness:
  "reachable lost_5x1
   \<and> cells lost_5x1 ! 2 \<in> set (cells lost_5x1)
   \<and> is_flagged (state (cells lost_5x1 ! 2)) \<and> is_revealed (state (cells lost_5x1 ! 2))
   \<and> is_mine (state (cells lost_5x1 ! 2)) \<and> game_over lost_5x1
   \<and> get_state lost_5x1 0 0 = Inr (state (cells lost_5x1 ! 0))
   \<and> is_revealed (state (cells lost_5x1 ! 0))
   \<and> toggle_flag lost_5x1 0 0 = Inr lost_5x1"
proof -
  have g: "get_state lost_5x1 0 0 = Inr (state (cells lost_5x1 ! 0))"
    by (simp add: get_state_def cell_pos_def py_pos_def index_def lost_5x1_def)
  have r: "is_revealed (state (cells lost_5x1 ! 0))"
    by (simp add: lost_5x1_def cell_of_def)
  have f: "cells lost_5x1 ! 2 \<in> set (cells lost_5x1)"
      "is_flagged (state (cells lost_5x1 ! 2))" "is_revealed (state (cells lost_5x1 ! 2))"
    by (simp_all add: lost_5x1_def cell_of_def)
  from flagged_revealed_only_lost_mines [OF reachable_5x1(4), of 0 0] g r f
  show ?thesis using reachable_5x1(4) by blast
qed

section \<open>Win and loss flags\<close>




section \<open>The loss path\<close>

text \<open>
  C6, as stated, fails in one conjunct. The claim's preconditions do not exclude a board
  that is already won, and \<open>reveal\<close> does not test \<open>win\<close>: on the won 4 by 1 board the
  cell at \<open>(2, 0)\<close> is an in-bounds mine, not revealed and not flagged, and \<open>game_over\<close> is
  false; \<open>reveal(2, 0)\<close> takes the loss path, which never writes \<open>win\<close>, so \<open>win\<close> is true
  after the call and has not "remained false".
\<close>

theorem loss_on_won_board_counterexample:
  "reachable won_4x1 \<and> is_inbounds won_4x1 2 0 \<and> \<not> game_over won_4x1
   \<and> get_state won_4x1 2 0 = Inr (state (cell_of 2 0 True False False 0))
   \<and> is_mine (state (cell_of 2 0 True False False 0))
   \<and> \<not> is_revealed (state (cell_of 2 0 True False False 0))
   \<and> \<not> is_flagged (state (cell_of 2 0 True False False 0))
   \<and> reveal id won_4x1 2 0 = Inr won_then_lost_4x1
   \<and> game_over won_then_lost_4x1 \<and> win won_then_lost_4x1"
proof -
  have h: "is_inbounds won_4x1 2 0" "\<not> game_over won_4x1"
    by (simp_all add: is_inbounds_def won_4x1_def)
  have g: "get_state won_4x1 2 0 = Inr (state (cell_of 2 0 True False False 0))"
    by (simp add: get_state_def cell_pos_def py_pos_def index_def won_4x1_def)
  have s: "is_mine (state (cell_of 2 0 True False False 0))"
    "\<not> is_revealed (state (cell_of 2 0 True False False 0))"
    "\<not> is_flagged (state (cell_of 2 0 True False False 0))"
    by (simp_all add: cell_of_def)
  have w: "game_over won_then_lost_4x1" "win won_then_lost_4x1"
    by (simp_all add: won_then_lost_4x1_def)
  from reachable_4x1(4) h g s round_4x1(5) w show ?thesis by blast
qed

text \<open>
  C6, amended. When \<open>reveal\<close> is called on an in-bounds cell that is a mine, not revealed
  and not flagged, while \<open>game_over\<close> is false, the call returns with \<open>game_over\<close> true and
  \<open>win\<close> unchanged (false stays false; on a board that was already won it stays true);
  the clicked cell and every mine cell are revealed; no cell that is not a mine changes,
  and the revealed count stays as it was.
\<close>

theorem loss_condition:
  assumes "reachable b" and "is_shuffle shuffle"
    and "is_inbounds b c r" and "\<not> game_over b"
    and "get_state b c r = Inr s" and "is_mine s" and "\<not> is_revealed s" and "\<not> is_flagged s"
  shows "\<exists>b'. reveal shuffle b c r = Inr b'
           \<and> game_over b' \<and> win b' = win b
           \<and> (\<exists>s'. get_state b' c r = Inr s' \<and> is_revealed s')
           \<and> (\<forall>cell \<in> set (cells b'). is_mine (state cell) \<longrightarrow> is_revealed (state cell))
           \<and> length (cells b') = length (cells b)
           \<and> (\<forall>j < length (cells b). \<not> is_mine (state (cells b ! j)) \<longrightarrow> cells b' ! j = cells b ! j)
           \<and> revealed_count b' = revealed_count b"
proof -
  let ?k = "nat (index b c r)"
  let ?b' = "reveal_all_mines (b\<lparr>game_over := True\<rparr>)"
  have inv: "board_inv b" by (rule reachable_inv[OF assms(1)])
  have core: "inv_core b" using inv by (simp add: board_inv_def)
  have wf: "wf_board b" by (rule inv_coreD(1)[OF core])
  have s: "s = state (cells b ! ?k)" and k: "?k < length (cells b)"
    using get_state_reachable[OF inv assms(3)] assms(5) by simp_all
  have pos: "cell_pos b c r = Inr ?k" by (rule cell_pos_inbounds[OF wf assms(3)])
  have placed: "mines_placed b"
  proof (rule ccontr)
    assume "\<not> mines_placed b"
    from inv_coreD(2)[OF core this] k have "\<not> is_mine (state (cells b ! ?k))" by simp
    with assms(6) s show False by simp
  qed
  have "reveal_cell b c r ?k = Inr ?b'"
    using assms(6,8) s reveal_all_mines_clicked[OF k] by (simp add: reveal_cell_def)
  then have res: "reveal shuffle b c r = Inr ?b'"
    using assms(3,4,7) s pos placed by (simp add: reveal_unfold)
  have cells': "cells ?b' = map (\<lambda>cell. if is_mine (state cell)
                             then cell\<lparr>state := (state cell)\<lparr>is_revealed := True\<rparr>\<rparr>
                             else cell) (cells b)"
    by (simp add: reveal_all_mines_def)
  have len: "length (cells ?b') = length (cells b)" by (simp add: cells')
  have g: "is_inbounds ?b' c r" "index ?b' c r = index b c r"
    using assms(3) by (simp_all add: is_inbounds_def index_def reveal_all_mines_def)
  have inv': "board_inv ?b'" by (rule loss_inv[OF core placed])
  have clicked: "get_state ?b' c r = Inr (state (cells ?b' ! ?k))"
    using get_state_reachable(1)[OF inv' g(1)] g(2) by simp
  have "is_revealed (state (cells ?b' ! ?k))"
    using k assms(6) s by (simp add: cells')
  with clicked have c1: "\<exists>s'. get_state ?b' c r = Inr s' \<and> is_revealed s'" by simp
  have c2: "\<forall>cell \<in> set (cells ?b'). is_mine (state cell) \<longrightarrow> is_revealed (state cell)"
    by (auto simp: cells')
  have c3: "\<forall>j < length (cells b). \<not> is_mine (state (cells b ! j)) \<longrightarrow> cells ?b' ! j = cells b ! j"
    by (simp add: cells')
  have c4: "game_over ?b'" "win ?b' = win b" "revealed_count ?b' = revealed_count b"
    by (simp_all add: reveal_all_mines_def)
  from res c1 c2 c3 c4 len show ?thesis by blast
qed

theorem loss_condition_witness:
  "reachable opened_4x1 \<and> is_shuffle id \<and> is_inbounds opened_4x1 2 0 \<and> \<not> game_over opened_4x1
   \<and> get_state opened_4x1 2 0 = Inr (state (cell_of 2 0 True False False 0))
   \<and> is_mine (state (cell_of 2 0 True False False 0))
   \<and> \<not> is_revealed (state (cell_of 2 0 True False False 0))
   \<and> \<not> is_flagged (state (cell_of 2 0 True False False 0))
   \<and> reveal id opened_4x1 2 0 = Inr lost_4x1
   \<and> game_over lost_4x1 \<and> win lost_4x1 = win opened_4x1
   \<and> (\<exists>s'. get_state lost_4x1 2 0 = Inr s' \<and> is_revealed s')
   \<and> length (cells lost_4x1) = length (cells opened_4x1)
   \<and> \<not> is_mine (state (cells opened_4x1 ! 3)) \<and> cells lost_4x1 ! 3 = cells opened_4x1 ! 3
   \<and> revealed_count lost_4x1 = revealed_count opened_4x1"
proof -
  have h: "is_inbounds opened_4x1 2 0" "\<not> game_over opened_4x1"
    by (simp_all add: is_inbounds_def opened_4x1_def)
  have g: "get_state opened_4x1 2 0 = Inr (state (cell_of 2 0 True False False 0))"
    by (simp add: get_state_def cell_pos_def py_pos_def index_def opened_4x1_def)
  have s: "is_mine (state (cell_of 2 0 True False False 0))"
    "\<not> is_revealed (state (cell_of 2 0 True False False 0))"
    "\<not> is_flagged (state (cell_of 2 0 True False False 0))"
    by (simp_all add: cell_of_def)
  have c3: "(3::nat) < length (cells opened_4x1)" "\<not> is_mine (state (cells opened_4x1 ! 3))"
    by (simp_all add: opened_4x1_def cell_of_def)
  from loss_condition [OF reachable_4x1(2) is_shuffle_id h g s]
  obtain b' where b': "reveal id opened_4x1 2 0 = Inr b'" "game_over b'" "win b' = win opened_4x1"
      "\<exists>s'. get_state b' 2 0 = Inr s' \<and> is_revealed s'"
      "length (cells b') = length (cells opened_4x1)"
      "\<forall>j < length (cells opened_4x1).
         \<not> is_mine (state (cells opened_4x1 ! j)) \<longrightarrow> cells b' ! j = cells opened_4x1 ! j"
      "revealed_count b' = revealed_count opened_4x1"
    by blast
  from b'(1) round_4x1(3) have e: "b' = lost_4x1" by simp
  from b'(6) c3 have "cells b' ! 3 = cells opened_4x1 ! 3" by blast
  with b' e c3(2) reachable_4x1(2) is_shuffle_id h g s show ?thesis by simp
qed

section \<open>The win test\<close>

text \<open>
  C7. Whenever a reveal call gets past its guards (in-bounds cell, round not over, cell
  not yet revealed), does not lose, and returns with
  \<open>revealed_count = cols * rows - num_mines\<close>, then \<open>win\<close> is true on return and every
  non-mine cell is revealed.
\<close>

theorem win_condition:
  assumes "reachable b" and "is_shuffle shuffle"
    and "is_inbounds b c r" and "\<not> game_over b"
    and "get_state b c r = Inr s" and "\<not> is_revealed s"
    and "reveal shuffle b c r = Inr b'" and "\<not> game_over b'"
    and "revealed_count b' = cols b' * rows b' - num_mines b'"
  shows "win b' \<and> (\<forall>cell \<in> set (cells b'). \<not> is_mine (state cell) \<longrightarrow> is_revealed (state cell))"
proof -
  have inv: "board_inv b" by (rule reachable_inv[OF assms(1)])
  have inv': "board_inv b'" by (rule reveal_inv[OF inv assms(2,7)])
  have s: "s = state (cells b ! nat (index b c r))"
    using get_state_reachable(1)[OF inv assms(3)] assms(5) by simp
  from reveal_go[OF inv assms(2,7,3,4)] assms(6) s
  obtain b1 where b1: "board_inv b1" "mines_placed b1" "\<not> game_over b1"
      "is_inbounds b1 c r" "index b1 c r = index b c r"
      "reveal_cell b1 c r (nat (index b c r)) = Inr b'"
    by auto
  have "reveal_cell b1 c r (nat (index b1 c r)) = Inr b'" using b1(5,6) by simp
  from reveal_cell_flags[OF b1(1,2,3,4) this] have placed': "mines_placed b'" by simp
  have w: "win b'" using inv' placed' assms(8,9) by (simp add: board_inv_def)
  have core': "inv_core b'" using inv' by (simp add: board_inv_def)
  from inv_coreD(6)[OF core' w] w show ?thesis by simp
qed

theorem win_condition_witness:
  "reachable opened_4x1 \<and> is_shuffle id \<and> is_inbounds opened_4x1 3 0 \<and> \<not> game_over opened_4x1
   \<and> get_state opened_4x1 3 0 = Inr (state (cell_of 3 0 False False False 1))
   \<and> \<not> is_revealed (state (cell_of 3 0 False False False 1))
   \<and> reveal id opened_4x1 3 0 = Inr won_4x1 \<and> \<not> game_over won_4x1
   \<and> revealed_count won_4x1 = cols won_4x1 * rows won_4x1 - num_mines won_4x1
   \<and> win won_4x1
   \<and> cells won_4x1 ! 0 \<in> set (cells won_4x1)
   \<and> \<not> is_mine (state (cells won_4x1 ! 0)) \<and> is_revealed (state (cells won_4x1 ! 0))"
proof -
  have cell: "cells won_4x1 ! 0 \<in> set (cells won_4x1)" "\<not> is_mine (state (cells won_4x1 ! 0))"
    by (simp_all add: won_4x1_def cell_of_def)
  have h: "is_inbounds opened_4x1 3 0" "\<not> game_over opened_4x1"
    by (simp_all add: is_inbounds_def opened_4x1_def)
  have g: "get_state opened_4x1 3 0 = Inr (state (cell_of 3 0 False False False 1))"
    by (simp add: get_state_def cell_pos_def py_pos_def index_def opened_4x1_def)
  have s: "\<not> is_revealed (state (cell_of 3 0 False False False 1))"
    by (simp add: cell_of_def)
  have w: "\<not> game_over won_4x1"
    "revealed_count won_4x1 = cols won_4x1 * rows won_4x1 - num_mines won_4x1"
    by (simp_all add: won_4x1_def)
  from win_condition [OF reachable_4x1(2) is_shuffle_id h g s round_4x1(4) w]
    reachable_4x1(2) is_shuffle_id h g s round_4x1(4) w cell
  show ?thesis by blast
qed

section \<open>Calls that change nothing\<close>

text \<open>
  C8, as stated, fails. \<open>toggle_flag\<close> tests neither \<open>game_over\<close> nor \<open>win\<close>: on the lost
  4 by 1 board it still flags the hidden cell at \<open>(3, 0)\<close>, and on the won board it
  still flags the hidden mine at \<open>(2, 0)\<close>. \<open>reveal\<close> tests \<open>game_over\<close> but not \<open>win\<close>: on
  the won board it still reveals the mine at \<open>(2, 0)\<close>.
\<close>

theorem mutators_after_finish_counterexample:
  "reachable lost_4x1 \<and> game_over lost_4x1 \<and> toggle_flag lost_4x1 3 0 \<noteq> Inr lost_4x1
   \<and> reachable won_4x1 \<and> win won_4x1 \<and> reveal id won_4x1 2 0 \<noteq> Inr won_4x1
   \<and> toggle_flag won_4x1 2 0 \<noteq> Inr won_4x1"
proof -
  have "toggle_flag lost_4x1 3 0 \<noteq> Inr lost_4x1" by code_simp
  moreover have "toggle_flag won_4x1 2 0 \<noteq> Inr won_4x1" by code_simp
  moreover have "reveal id won_4x1 2 0 \<noteq> Inr won_4x1"
    unfolding round_4x1(5) by (simp add: won_4x1_def won_then_lost_4x1_def)
  moreover have "game_over lost_4x1" "win won_4x1" by (simp_all add: lost_4x1_def won_4x1_def)
  ultimately show ?thesis using reachable_4x1(3,4) by blast
qed

text \<open>
  C8, amended. On every reachable board, \<open>reveal\<close> and \<open>toggle_flag\<close> with out-of-bounds
  coordinates, \<open>reveal\<close> while \<open>game_over\<close> is true, and \<open>reveal\<close> or \<open>toggle_flag\<close> on an
  already revealed cell raise nothing and return the board unchanged. \<open>toggle_flag\<close>
  after the round has ended, and \<open>reveal\<close> after a win, are not among the no-ops.
\<close>

theorem invalid_calls_are_no_ops:
  assumes "reachable b"
  shows "(\<not> is_inbounds b c r \<longrightarrow> reveal shuffle b c r = Inr b \<and> toggle_flag b c r = Inr b)
       \<and> (game_over b \<longrightarrow> reveal shuffle b c r = Inr b)
       \<and> (is_inbounds b c r \<longrightarrow>
            (\<exists>s. get_state b c r = Inr s
               \<and> (is_revealed s \<longrightarrow> reveal shuffle b c r = Inr b \<and> toggle_flag b c r = Inr b)))"
proof -
  have inv: "board_inv b" by (rule reachable_inv[OF assms])
  have a: "reveal shuffle b c r = Inr b \<and> toggle_flag b c r = Inr b" if "\<not> is_inbounds b c r"
    using that by (simp add: reveal_unfold toggle_flag_def)
  have g: "reveal shuffle b c r = Inr b" if "game_over b"
    using that by (simp add: reveal_unfold)
  have i: "\<exists>s. get_state b c r = Inr s
               \<and> (is_revealed s \<longrightarrow> reveal shuffle b c r = Inr b \<and> toggle_flag b c r = Inr b)"
    if inb: "is_inbounds b c r"
  proof -
    have wf: "wf_board b" using inv by (simp add: board_inv_def inv_coreD(1))
    have pos: "cell_pos b c r = Inr (nat (index b c r))" by (rule cell_pos_inbounds[OF wf inb])
    have "get_state b c r = Inr (state (cells b ! nat (index b c r)))"
      by (rule get_state_reachable(1)[OF inv inb])
    moreover have "reveal shuffle b c r = Inr b \<and> toggle_flag b c r = Inr b"
      if "is_revealed (state (cells b ! nat (index b c r)))"
      using that pos inb by (simp add: reveal_unfold toggle_flag_def)
    ultimately show ?thesis by blast
  qed
  from a g i show ?thesis by blast
qed

theorem invalid_calls_are_no_ops_witness:
  "reachable lost_4x1
   \<and> \<not> is_inbounds lost_4x1 7 0 \<and> reveal id lost_4x1 7 0 = Inr lost_4x1
   \<and> toggle_flag lost_4x1 7 0 = Inr lost_4x1
   \<and> game_over lost_4x1 \<and> reveal id lost_4x1 3 0 = Inr lost_4x1
   \<and> reachable opened_4x1 \<and> is_inbounds opened_4x1 1 0
   \<and> get_state opened_4x1 1 0 = Inr (state (cell_of 1 0 False True False 1))
   \<and> is_revealed (state (cell_of 1 0 False True False 1))
   \<and> reveal id opened_4x1 1 0 = Inr opened_4x1 \<and> toggle_flag opened_4x1 1 0 = Inr opened_4x1"
proof -
  have h: "\<not> is_inbounds lost_4x1 7 0" "game_over lost_4x1" "is_inbounds opened_4x1 1 0"
    by (simp_all add: is_inbounds_def lost_4x1_def opened_4x1_def)
  have g: "get_state opened_4x1 1 0 = Inr (state (cell_of 1 0 False True False 1))"
    by (simp add: get_state_def cell_pos_def py_pos_def index_def opened_4x1_def)
  have s: "is_revealed (state (cell_of 1 0 False True False 1))"
    by (simp add: cell_of_def)
  from invalid_calls_are_no_ops [OF reachable_4x1(3), of 7 0 id]
    invalid_calls_are_no_ops [OF reachable_4x1(3), of 3 0 id]
    invalid_calls_are_no_ops [OF reachable_4x1(2), of 1 0 id]
    h g s reachable_4x1(2,3)
  show ?thesis by auto
qed

section \<open>First-click safety\<close>

lemma forbidden_inbounds:
  assumes "is_inbounds b sc sr" and "p \<in> forbidden b sc sr"
  shows "is_inbounds b (fst p) (snd p)"
  using assms neighbors_inbounds[of "fst p" "snd p" b sc sr] by (auto simp: forbidden_def)

text \<open>The pool holds every grid position outside the safe zone.\<close>

lemma pool_length:
  assumes "is_inbounds b sc sr"
  shows "int (length (pool b sc sr)) = cols b * rows b - int (card (forbidden b sc sr))"
proof -
  have fin: "finite (forbidden b sc sr)" by (simp add: forbidden_def)
  have sub: "forbidden b sc sr \<subseteq> set (all_positions b)"
    using forbidden_inbounds[OF assms] by (auto simp: set_all_positions)
  have pos: "0 \<le> cols b" "0 \<le> rows b" using assms by (auto simp: is_inbounds_def)
  have "length (pool b sc sr) = card (set (pool b sc sr))"
    using pool_facts(1) by (simp add: distinct_card)
  also have "set (pool b sc sr) = set (all_positions b) - forbidden b sc sr"
    by (auto simp: pool_def)
  also have "card \<dots> = card (set (all_positions b)) - card (forbidden b sc sr)"
    using fin sub by (rule card_Diff_subset)
  also have "card (set (all_positions b)) = length (all_positions b)"
    using distinct_all_positions by (rule distinct_card)
  finally have "length (pool b sc sr) = nat (cols b) * nat (rows b) - card (forbidden b sc sr)"
    by (simp add: length_all_positions)
  moreover have "card (forbidden b sc sr) \<le> nat (cols b) * nat (rows b)"
    using card_mono[OF _ sub] distinct_card[OF distinct_all_positions, of b]
    by (simp add: length_all_positions)
  ultimately have "int (length (pool b sc sr))
      = int (nat (cols b) * nat (rows b)) - int (card (forbidden b sc sr))"
    by simp
  then show ?thesis using nat_mult_int[OF pos] by simp
qed



section \<open>A first reveal on a flagged cell\<close>

text \<open>
  Placement raises when the pool is too small for the requested mines, whatever the
  shuffle returns.
\<close>

lemma place_mines_too_many:
  assumes "is_shuffle sh" and "int (length (pool b sc sr)) < num_mines b"
  shows "place_mines sh b sc sr = Inl IndexError"
proof (cases "place_mines sh b sc sr")
  case (Inl e)
  then show ?thesis by (cases e) simp
next
  case (Inr b1)
  from place_mines_enough[OF assms(1) this] assms(2) show ?thesis by simp
qed

text \<open>
  C10, as stated, fails. The claim puts no bound on the mine count, and the constructor
  accepts any: on \<open>Board(2, 1, 5)\<close> with \<open>(0, 0)\<close> flagged, mines are not placed, the round
  is not over and the cell is in bounds, unrevealed and flagged, but the safe zone covers
  both cells, the pool is empty, and \<open>pool[0]\<close> in \<open>place_mines\<close> raises IndexError: the
  call does not return and no mines are placed.
\<close>

theorem first_reveal_overmined_counterexample:
  "reachable flagged_2x1 \<and> \<not> mines_placed flagged_2x1 \<and> \<not> game_over flagged_2x1
   \<and> is_inbounds flagged_2x1 0 0
   \<and> get_state flagged_2x1 0 0 = Inr (state (cell_of 0 0 False False True 0))
   \<and> is_flagged (state (cell_of 0 0 False False True 0))
   \<and> \<not> is_revealed (state (cell_of 0 0 False False True 0))
   \<and> reveal id flagged_2x1 0 0 = Inl IndexError"
proof -
  have h: "\<not> mines_placed flagged_2x1" "\<not> game_over flagged_2x1" "is_inbounds flagged_2x1 0 0"
    by (simp_all add: is_inbounds_def flagged_2x1_def)
  have g: "get_state flagged_2x1 0 0 = Inr (state (cell_of 0 0 False False True 0))"
    by (simp add: get_state_def cell_pos_def py_pos_def index_def flagged_2x1_def)
  have s: "is_flagged (state (cell_of 0 0 False False True 0))"
    "\<not> is_revealed (state (cell_of 0 0 False False True 0))"
    by (simp_all add: cell_of_def)
  from reachable_2x1(2) h g s round_2x1(3) show ?thesis by blast
qed

text \<open>
  C10, amended. If the first reveal call of a round (mines not placed, hence round not
  over and nothing revealed) targets an in-bounds cell that is flagged, and the mine
  count fits the pool (\<open>num_mines \<le> cols * rows - |safe zone|\<close>), the call returns exactly
  the board \<open>place_mines\<close> produces with that cell as safe origin: \<open>mines_placed\<close> is true
  and the requested number of mines is on the board, while \<open>revealed_count\<close>,
  \<open>game_over\<close>, \<open>win\<close> and every cell's \<open>is_revealed\<close> and \<open>is_flagged\<close> are as before.
\<close>

theorem first_reveal_on_flagged_cell:
  assumes "reachable b" and "\<not> mines_placed b" and "is_shuffle shuffle"
    and "is_inbounds b c r" and "get_state b c r = Inr s" and "is_flagged s"
    and "num_mines b \<le> cols b * rows b - int (card (forbidden b c r))"
  shows "\<exists>b'. reveal shuffle b c r = Inr b' \<and> place_mines shuffle b c r = Inr b'
           \<and> mines_placed b' \<and> num_mine_cells b' = max 0 (num_mines b)
           \<and> revealed_count b' = revealed_count b
           \<and> game_over b' = game_over b \<and> win b' = win b
           \<and> map (\<lambda>cell. (is_revealed (state cell), is_flagged (state cell))) (cells b')
             = map (\<lambda>cell. (is_revealed (state cell), is_flagged (state cell))) (cells b)
           \<and> num_revealed b' = 0"
proof -
  have inv: "board_inv b" by (rule reachable_inv[OF assms(1)])
  have core: "inv_core b" using inv by (simp add: board_inv_def)
  have enough: "num_mines b \<le> int (length (pool b c r))"
    using assms(7) pool_length[OF assms(4)] by simp
  have s: "s = state (cells b ! nat (index b c r))"
    using get_state_reachable(1)[OF inv assms(4)] assms(5) by simp
  from reveal_fresh[OF inv assms(2,3,4) enough] assms(6) s
  obtain b1 where b1: "place_mines shuffle b c r = Inr b1" "board_inv b1" "mines_placed b1"
      "keeps_play b b1" "reveal shuffle b c r = Inr b1"
    by auto
  have core1: "inv_core b1" using b1(2) by (simp add: board_inv_def)
  have k: "cols b1 = cols b" "rows b1 = rows b" "num_mines b1 = num_mines b"
    "revealed_count b1 = revealed_count b" "game_over b1 = game_over b" "win b1 = win b"
    "map (\<lambda>cell. (is_revealed (state cell), is_flagged (state cell))) (cells b1)
       = map (\<lambda>cell. (is_revealed (state cell), is_flagged (state cell))) (cells b)"
    using b1(4) by (simp_all add: keeps_play_def)
  have mines: "num_mine_cells b1 = max 0 (num_mines b)"
    using inv_coreD(7)[OF core1 b1(3)] k(3) by simp
  have "\<forall>cell \<in> set (cells b). \<not> is_revealed (state cell)"
    using inv_coreD(2)[OF core assms(2)] by blast
  then have "\<forall>j < length (cells b). \<not> is_revealed (state (cells b ! j))"
    by (simp add: all_set_conv_all_nth)
  then have "\<forall>j < length (cells b1). \<not> is_revealed (state (cells b1 ! j))"
    using keeps_play_nth(1)[OF b1(4)] keeps_play_length[OF b1(4)] by simp
  then have "\<forall>cell \<in> set (cells b1). \<not> is_revealed (state cell)"
    by (simp add: all_set_conv_all_nth)
  then have none: "num_revealed b1 = 0"
    by (simp add: num_revealed_def filter_False)
  from b1(1,3,5) mines k(4-7) none show ?thesis by blast
qed

theorem first_reveal_on_flagged_cell_witness:
  "reachable flagged_4x1 \<and> \<not> mines_placed flagged_4x1 \<and> is_shuffle id
   \<and> is_inbounds flagged_4x1 0 0
   \<and> get_state flagged_4x1 0 0 = Inr (state (cell_of 0 0 False False True 0))
   \<and> is_flagged (state (cell_of 0 0 False False True 0))
   \<and> num_mines flagged_4x1
        \<le> cols flagged_4x1 * rows flagged_4x1 - int (card (forbidden flagged_4x1 0 0))
   \<and> reveal id flagged_4x1 0 0 = Inr flagged_placed_4x1
   \<and> place_mines id flagged_4x1 0 0 = Inr flagged_placed_4x1
   \<and> mines_placed flagged_placed_4x1 \<and> num_mine_cells flagged_placed_4x1 = 1
   \<and> revealed_count flagged_placed_4x1 = revealed_count flagged_4x1
   \<and> num_revealed flagged_placed_4x1 = 0"
proof -
  have f: "forbidden flagged_4x1 0 0 = {(0, 0), (1, 0)}"
    by (auto simp: forbidden_def neighbors_def deltas_def is_inbounds_def flagged_4x1_def)
  have h: "\<not> mines_placed flagged_4x1" "is_inbounds flagged_4x1 0 0"
    by (simp_all add: is_inbounds_def flagged_4x1_def)
  have g: "get_state flagged_4x1 0 0 = Inr (state (cell_of 0 0 False False True 0))"
    by (simp add: get_state_def cell_pos_def py_pos_def index_def flagged_4x1_def)
  have s: "is_flagged (state (cell_of 0 0 False False True 0))"
    by (simp add: cell_of_def)
  have n: "num_mines flagged_4x1
        \<le> cols flagged_4x1 * rows flagged_4x1 - int (card (forbidden flagged_4x1 0 0))"
    unfolding f by (simp add: flagged_4x1_def)
  have m: "max 0 (num_mines flagged_4x1) = 1" by (simp add: flagged_4x1_def)
  from first_reveal_on_flagged_cell [OF reachable_4x1(6) h(1) is_shuffle_id h(2) g s n]
  obtain b' where b': "reveal id flagged_4x1 0 0 = Inr b'" "place_mines id flagged_4x1 0 0 = Inr b'"
     "mines_placed b'" "num_mine_cells b' = max 0 (num_mines flagged_4x1)"
     "revealed_count b' = revealed_count flagged_4x1" "num_revealed b' = 0"
    by blast
  from b'(1) round_4x1(7) have "b' = flagged_placed_4x1" by simp
  with b' m reachable_4x1(6) h is_shuffle_id g s n show ?thesis by simp
qed

section \<open>The flagged-cell count query\<close>

text \<open>
  C1. The claim: \<open>flagged_count\<close> returns the exact number of cells whose
  \<open>is_flagged\<close> is true, for every board state. The method's comment asks for that
  number, but its body is \<open>pass\<close>: for every board the call returns \<open>None\<close>, which
  is never the count.
\<close>

theorem flagged_count_returns_None:
  "flagged_count b = None \<and> flagged_count b \<noteq> Some (num_flagged b)"
  by (simp add: flagged_count_def)

section \<open>Construction\<close>

lemma cells_Board_init:
  assumes "Board_init cs rs mines = Inr b"
  shows "cells b = concat (map (\<lambda>r. map (\<lambda>c. Cell_init c r) (py_range cs)) (py_range rs))"
  using assms by (auto simp: Board_init_def)

text \<open>
  C9, as stated, fails: a 3 by 3 board with 9 mines violates
  \<open>num_mines \<le> cols * rows - 9\<close>, and the constructor returns a board all the same.
\<close>

theorem Board_init_accepts_invalid_counterexample:
  "\<not> (9::int) \<le> 3 * 3 - 9 \<and> \<not> isl (Board_init 3 3 9)"
  by (simp add: Board_init_def)

text \<open>
  C9, amended. \<open>Board.__init__\<close> validates nothing and never fails: for every
  configuration, valid or not, it returns a board that stores the three arguments, has
  one cell per grid position, every cell unrevealed, unflagged and mine-free, no mines
  placed, a zero revealed count and both terminal flags false.
\<close>

theorem Board_init_always_succeeds:
  "\<exists>b. Board_init cs rs mines = Inr b
     \<and> cols b = cs \<and> rows b = rs \<and> num_mines b = mines
     \<and> length (cells b) = nat cs * nat rs
     \<and> (\<forall>cell \<in> set (cells b).
           \<not> is_revealed (state cell) \<and> \<not> is_flagged (state cell) \<and> \<not> is_mine (state cell))
     \<and> \<not> mines_placed b \<and> revealed_count b = 0 \<and> \<not> game_over b \<and> \<not> win b"
proof -
  define b where "b = \<lparr>cols = cs, rows = rs, num_mines = mines,
          cells = concat (map (\<lambda>r. map (\<lambda>c. Cell_init c r) (py_range cs)) (py_range rs)),
          mines_placed = False, revealed_count = 0, game_over = False, win = False\<rparr>"
  have init: "Board_init cs rs mines = Inr b"
    by (simp add: Board_init_def b_def)
  have len: "length (cells b) = nat cs * nat rs"
    by (simp add: b_def length_concat o_def length_py_range sum_list_triv)
  have clean: "\<not> is_revealed (state cell) \<and> \<not> is_flagged (state cell) \<and> \<not> is_mine (state cell)"
    if "cell \<in> set (cells b)" for cell
    using that by (auto simp: b_def Cell_init_def CellState_init_def)
  show ?thesis
    using init len clean by (intro exI[of _ b]) (simp add: b_def)
qed

theorem Board_init_always_succeeds_witness:
  "\<exists>b. Board_init 2 1 5 = Inr b
     \<and> cols b = 2 \<and> rows b = 1 \<and> num_mines b = 5 \<and> length (cells b) = 2
     \<and> \<not> mines_placed b \<and> revealed_count b = 0 \<and> \<not> game_over b \<and> \<not> win b"
  using Board_init_always_succeeds [of 2 1 5] by auto

end
